theory Spec2Isabelle
  imports Complex_Main "HOL-Library.Word" "HOL-Library.Monad_Syntax"
begin

unbundle bit_operations_syntax

section \<open>Shared data model\<close>

text \<open>
  A JavaScript string is a sequence of UTF-16 code units. The filler lines of the
  source are Cyrillic text (all in the Basic Multilingual Plane, one unit per letter),
  so they are written out as the list of their code units.
\<close>

type_synonym jsstring = "nat list"

text \<open>The value \<open>JSON.parse\<close> hands back: any JSON value, not only an array of strings.\<close>

datatype json =
    JNull
  | JBool bool
  | JNum real
  | JStr jsstring
  | JArr "json list"
  | JObj "(jsstring \<times> json) list"

text \<open>\<open>array[i]\<close>: \<open>undefined\<close> outside the array.\<close>

definition at_index :: "'a list \<Rightarrow> nat \<Rightarrow> 'a option" where
  "at_index xs i = (if i < length xs then Some (xs ! i) else None)"

section \<open>services/geminiService.ts\<close>

subsection \<open>calculateTotalSegments\<close>

definition TARGET_SEGMENT_DURATION_SEC :: real where
  "TARGET_SEGMENT_DURATION_SEC = 60"

text \<open>
  \<open>Math.max(1, Math.ceil(durationSeconds / TARGET_SEGMENT_DURATION_SEC))\<close>, with the
  duration a real number of seconds (the route planner multiplies the router's duration
  by a walking factor, so it need not be whole).
\<close>

definition calculateTotalSegments :: "real \<Rightarrow> int" where
  "calculateTotalSegments durationSeconds =
     max 1 \<lceil>durationSeconds / TARGET_SEGMENT_DURATION_SEC\<rceil>"

subsection \<open>generateStoryOutline\<close>

text \<open>The line pushed while the parsed outline is shorter than requested.\<close>

definition OUTLINE_PAD_LINE :: jsstring where
  "OUTLINE_PAD_LINE =
     [1055, 1088, 1086, 1076, 1086, 1083, 1078, 1077, 1085, 1080, 1077, 32,
      1079, 1072, 1093, 1074, 1072, 1090, 1099, 1074, 1072, 1102, 1097, 1077, 1075, 1086, 32,
      1087, 1091, 1090, 1077, 1096, 1077, 1089, 1090, 1074, 1080, 1103, 46]"

text \<open>The line the \<open>catch\<close> branch fills the whole outline with.\<close>

definition OUTLINE_FALLBACK_LINE :: jsstring where
  "OUTLINE_FALLBACK_LINE =
     [1055, 1088, 1086, 1076, 1086, 1083, 1078, 1077, 1085, 1080, 1077, 32,
      1080, 1084, 1084, 1077, 1088, 1089, 1080, 1074, 1085, 1086, 1075, 1086, 32,
      1087, 1086, 1074, 1077, 1089, 1090, 1074, 1086, 1074, 1072, 1085, 1080, 1103, 32,
      1086, 32, 1087, 1091, 1090, 1080, 46]"

text \<open>
  What the content service answers to the outline prompt: the call rejects, or it
  resolves to a response whose \<open>text\<close> may be undefined.
\<close>

datatype api_response = ApiRejected | ApiResponse "jsstring option"

text \<open>\<open>String.prototype.trim\<close>: strips white space and line terminators at both ends.\<close>

definition js_whitespace :: "nat \<Rightarrow> bool" where
  "js_whitespace c \<longleftrightarrow>
     c \<in> {9, 10, 11, 12, 13, 32, 160, 5760, 8232, 8233, 8239, 8287, 12288, 65279}
     \<or> (8192 \<le> c \<and> c \<le> 8202)"

definition js_trim :: "jsstring \<Rightarrow> jsstring" where
  "js_trim s = rev (dropWhile js_whitespace (rev (dropWhile js_whitespace s)))"

datatype outline_error = NoOutlineGenerated | InvalidOutlineFormat | JsonSyntaxError | ServiceError

text \<open>
  The \<open>while (outline.length < totalSegments) outline.push(...)\<close> loop.
\<close>

function outline_pad :: "json list \<Rightarrow> nat \<Rightarrow> json list" where
  "outline_pad outline totalSegments =
     (if length outline < totalSegments
      then outline_pad (outline @ [JStr OUTLINE_PAD_LINE]) totalSegments
      else outline)"
  by pat_completeness auto
termination
  by (relation "measure (\<lambda>(outline, totalSegments). totalSegments - length outline)") auto

declare outline_pad.simps [simp del]

text \<open>
  The body of the \<open>try\<close> block. \<open>JSON_parse\<close> is the host's parser (\<open>None\<close> when it
  throws a SyntaxError); every \<open>throw\<close> is an \<open>Inl\<close>.
\<close>

definition outline_try ::
  "(jsstring \<Rightarrow> json option) \<Rightarrow> api_response \<Rightarrow> nat \<Rightarrow> outline_error + json list" where
  "outline_try JSON_parse response totalSegments =
     (case response of
        ApiRejected \<Rightarrow> Inl ServiceError
      | ApiResponse t \<Rightarrow>
          (case map_option js_trim t of
             None \<Rightarrow> Inl NoOutlineGenerated
           | Some text \<Rightarrow>
               if text = [] then Inl NoOutlineGenerated
               else (case JSON_parse text of
                       None \<Rightarrow> Inl JsonSyntaxError
                     | Some (JArr outline) \<Rightarrow>
                         if length outline = 0 then Inl InvalidOutlineFormat
                         else Inr (take totalSegments (outline_pad outline totalSegments))
                     | Some _ \<Rightarrow> Inl InvalidOutlineFormat)))"

text \<open>The whole function: the \<open>catch\<close> branch turns every error into the fallback outline.\<close>

definition generateStoryOutline ::
  "(jsstring \<Rightarrow> json option) \<Rightarrow> api_response \<Rightarrow> nat \<Rightarrow> json list" where
  "generateStoryOutline JSON_parse response totalSegments =
     (case outline_try JSON_parse response totalSegments of
        Inr outline \<Rightarrow> outline
      | Inl error \<Rightarrow> replicate totalSegments (JStr OUTLINE_FALLBACK_LINE))"


section \<open>services/audioUtils.ts\<close>

subsection \<open>DataView over an ArrayBuffer\<close>

text \<open>
  An \<open>ArrayBuffer\<close> is a list of bytes, a \<open>DataView\<close> setter an update of that list.
  A setter whose bytes do not fit the buffer throws a RangeError: \<open>None\<close>. The numeric
  argument is reduced modulo the width of the field, as \<open>ToUint8\<close>, \<open>ToUint16\<close>,
  \<open>ToUint32\<close> and \<open>ToInt16\<close> do; all multi-byte writes of the source are little-endian
  (their last argument is \<open>true\<close>).
\<close>

type_synonym byte = "8 word"

definition setUint8 :: "byte list \<Rightarrow> nat \<Rightarrow> nat \<Rightarrow> byte list option" where
  "setUint8 view byteOffset v =
     (if byteOffset + 1 \<le> length view then Some (view[byteOffset := of_nat v]) else None)"

definition le16 :: "16 word \<Rightarrow> byte list" where
  "le16 w = [ucast w, ucast (drop_bit 8 w)]"

definition le32 :: "32 word \<Rightarrow> byte list" where
  "le32 w = [ucast w, ucast (drop_bit 8 w), ucast (drop_bit 16 w), ucast (drop_bit 24 w)]"

text \<open>Storing a run of bytes from an offset on, inside the buffer.\<close>

fun store_bytes :: "byte list \<Rightarrow> nat \<Rightarrow> byte list \<Rightarrow> byte list" where
  "store_bytes view byteOffset [] = view"
| "store_bytes view byteOffset (b # bs) = store_bytes (view[byteOffset := b]) (Suc byteOffset) bs"

definition setUint16 :: "byte list \<Rightarrow> nat \<Rightarrow> nat \<Rightarrow> byte list option" where
  "setUint16 view byteOffset v =
     (if byteOffset + 2 \<le> length view then Some (store_bytes view byteOffset (le16 (of_nat v)))
      else None)"

definition setUint32 :: "byte list \<Rightarrow> nat \<Rightarrow> nat \<Rightarrow> byte list option" where
  "setUint32 view byteOffset v =
     (if byteOffset + 4 \<le> length view then Some (store_bytes view byteOffset (le32 (of_nat v)))
      else None)"

definition setInt16 :: "byte list \<Rightarrow> nat \<Rightarrow> int \<Rightarrow> byte list option" where
  "setInt16 view byteOffset v =
     (if byteOffset + 2 \<le> length view then Some (store_bytes view byteOffset (le16 (of_int v)))
      else None)"

text \<open>The matching little-endian readers, used to state what a field holds.\<close>

definition getUint16 :: "byte list \<Rightarrow> nat \<Rightarrow> nat" where
  "getUint16 view byteOffset =
     unat (view ! byteOffset) + 256 * unat (view ! (byteOffset + 1))"

definition getUint32 :: "byte list \<Rightarrow> nat \<Rightarrow> nat" where
  "getUint32 view byteOffset =
     unat (view ! byteOffset) + 256 * unat (view ! (byteOffset + 1))
     + 65536 * unat (view ! (byteOffset + 2)) + 16777216 * unat (view ! (byteOffset + 3))"

definition getInt16 :: "byte list \<Rightarrow> nat \<Rightarrow> int" where
  "getInt16 view byteOffset = sint (word_of_nat (getUint16 view byteOffset) :: 16 word)"

text \<open>The \<open>n\<close> bytes of a buffer from an offset on.\<close>

definition bytes_at :: "byte list \<Rightarrow> nat \<Rightarrow> nat \<Rightarrow> byte list" where
  "bytes_at view offset n = take n (drop offset view)"

subsection \<open>writeString\<close>

text \<open>
  \<open>for (i = 0; i < string.length; i++) view.setUint8(offset + i, string.charCodeAt(i))\<close>,
  as a recursion on the characters still to be written.
\<close>

fun writeString :: "byte list \<Rightarrow> nat \<Rightarrow> jsstring \<Rightarrow> byte list option" where
  "writeString view offset [] = Some view"
| "writeString view offset (c # cs) =
     (case setUint8 view offset c of
        None \<Rightarrow> None
      | Some view' \<Rightarrow> writeString view' (Suc offset) cs)"

definition str_RIFF :: jsstring where "str_RIFF = [82, 73, 70, 70]"
definition str_WAVE :: jsstring where "str_WAVE = [87, 65, 86, 69]"
definition str_fmt :: jsstring where "str_fmt = [102, 109, 116, 32]"
definition str_data :: jsstring where "str_data = [100, 97, 116, 97]"

subsection \<open>pcmToWav\<close>

text \<open>
  \<open>new Int16Array(pcmData)\<close>: a view of the bytes as 16-bit signed integers in the
  byte order of the host, taken to be little-endian; it throws a RangeError when the
  byte length is odd.
\<close>

fun Int16Array :: "byte list \<Rightarrow> 16 word list option" where
  "Int16Array [] = Some []"
| "Int16Array [b] = None"
| "Int16Array (lo # hi # rest) =
     (case Int16Array rest of
        None \<Rightarrow> None
      | Some ws \<Rightarrow> Some ((ucast lo OR push_bit 8 (ucast hi)) # ws))"

text \<open>
  \<open>for (i = 0; i < numSamples; i++, offset += 2) view.setInt16(offset, pcm16[i], true)\<close>,
  as a recursion on the samples still to be written.
\<close>

fun write_pcm :: "byte list \<Rightarrow> nat \<Rightarrow> 16 word list \<Rightarrow> byte list option" where
  "write_pcm view offset [] = Some view"
| "write_pcm view offset (s # ss) =
     (case setInt16 view offset (sint s) of
        None \<Rightarrow> None
      | Some view' \<Rightarrow> write_pcm view' (offset + 2) ss)"

text \<open>The header writes of \<open>pcmToWav\<close>, in the order of the source.\<close>

definition wav_header ::
  "byte list \<Rightarrow> nat \<Rightarrow> nat \<Rightarrow> nat \<Rightarrow> nat \<Rightarrow> nat \<Rightarrow> nat \<Rightarrow> nat \<Rightarrow> nat \<Rightarrow> byte list option" where
  "wav_header view totalSize format numChannels sampleRate byteRate blockAlign bitDepth dataSize =
     do {
       view \<leftarrow> writeString view 0 str_RIFF;
       view \<leftarrow> setUint32 view 4 (totalSize - 8);
       view \<leftarrow> writeString view 8 str_WAVE;
       view \<leftarrow> writeString view 12 str_fmt;
       view \<leftarrow> setUint32 view 16 16;
       view \<leftarrow> setUint16 view 20 format;
       view \<leftarrow> setUint16 view 22 numChannels;
       view \<leftarrow> setUint32 view 24 sampleRate;
       view \<leftarrow> setUint32 view 28 byteRate;
       view \<leftarrow> setUint16 view 32 blockAlign;
       view \<leftarrow> setUint16 view 34 bitDepth;
       view \<leftarrow> writeString view 36 str_data;
       setUint32 view 40 dataSize
     }"

text \<open>
  \<open>pcmToWav(pcmData, sampleRate)\<close>: the bytes of the Blob, or \<open>None\<close> when a RangeError
  is thrown. The sample rate is a non-negative whole number (the caller parses it from
  decimal digits, the default is 24000).
\<close>

definition pcmToWav :: "byte list \<Rightarrow> nat \<Rightarrow> byte list option" where
  "pcmToWav pcmData sampleRate =
     do {
       pcm16 \<leftarrow> Int16Array pcmData;
       let numSamples = length pcm16;
       let numChannels = 1;
       let bytesPerSample = 2;
       let blockAlign = numChannels * bytesPerSample;
       let byteRate = sampleRate * blockAlign;
       let dataSize = numSamples * blockAlign;
       let wavHeaderSize = 44;
       let totalSize = wavHeaderSize + dataSize;
       let view = replicate totalSize 0;
       view \<leftarrow> wav_header view totalSize 1 numChannels sampleRate byteRate blockAlign 16 dataSize;
       write_pcm view 44 pcm16
     }"

subsection \<open>AudioBuffer and concatenateAudioBuffers\<close>

text \<open>
  A Web Audio \<open>AudioBuffer\<close>: a sample rate, a length in sample frames and one array of
  samples per channel. The host keeps every channel array at the length of the buffer.
\<close>

record AudioBuffer =
  sampleRate :: nat
  length_frames :: nat
  channels :: "real list list"

definition numberOfChannels :: "AudioBuffer \<Rightarrow> nat" where
  "numberOfChannels buffer = length (channels buffer)"

definition wf_buffer :: "AudioBuffer \<Rightarrow> bool" where
  "wf_buffer buffer \<longleftrightarrow> list_all (\<lambda>c. length c = length_frames buffer) (channels buffer)"

datatype dom_error = IndexSizeError | RangeError | NotSupportedError

text \<open>
  \<open>context.createBuffer(numberOfChannels, length, sampleRate)\<close>: a silent buffer; the
  host refuses a channel count, a length or a rate of zero.
\<close>

definition createBuffer :: "nat \<Rightarrow> nat \<Rightarrow> nat \<Rightarrow> dom_error + AudioBuffer" where
  "createBuffer c n r =
     (if c = 0 \<or> n = 0 \<or> r = 0 then Inl NotSupportedError
      else Inr \<lparr>sampleRate = r, length_frames = n, channels = replicate c (replicate n 0)\<rparr>)"

text \<open>\<open>buffer.getChannelData(i)\<close>: throws when the buffer has no channel \<open>i\<close>.\<close>

definition getChannelData :: "AudioBuffer \<Rightarrow> nat \<Rightarrow> dom_error + real list" where
  "getChannelData buffer i =
     (if i < numberOfChannels buffer then Inr (channels buffer ! i) else Inl IndexSizeError)"

text \<open>\<open>target.set(source, offset)\<close> on a typed array: throws when the source does not fit.\<close>

definition typed_array_set :: "real list \<Rightarrow> real list \<Rightarrow> nat \<Rightarrow> dom_error + real list" where
  "typed_array_set target source offset =
     (if offset + length source \<le> length target
      then Inr (take offset target @ source @ drop (offset + length source) target)
      else Inl RangeError)"

text \<open>The inner loop \<open>for (const buffer of buffers)\<close> for channel \<open>i\<close>.\<close>

fun copy_channel :: "real list \<Rightarrow> nat \<Rightarrow> nat \<Rightarrow> AudioBuffer list \<Rightarrow> dom_error + real list" where
  "copy_channel channelData i offset [] = Inr channelData"
| "copy_channel channelData i offset (buffer # rest) =
     (case getChannelData buffer i of
        Inl e \<Rightarrow> Inl e
      | Inr source \<Rightarrow>
          (case typed_array_set channelData source offset of
             Inl e \<Rightarrow> Inl e
           | Inr channelData' \<Rightarrow> copy_channel channelData' i (offset + length_frames buffer) rest))"

text \<open>
  The outer loop over the channels \<open>i\<close> of the first buffer; \<open>getChannelData\<close> of the
  result is a live view, so what is written through it is stored back into the result.
\<close>

fun concat_channels :: "AudioBuffer \<Rightarrow> nat list \<Rightarrow> AudioBuffer list \<Rightarrow> dom_error + AudioBuffer" where
  "concat_channels result [] buffers = Inr result"
| "concat_channels result (i # is) buffers =
     (case getChannelData result i of
        Inl e \<Rightarrow> Inl e
      | Inr channelData \<Rightarrow>
          (case copy_channel channelData i 0 buffers of
             Inl e \<Rightarrow> Inl e
           | Inr channelData' \<Rightarrow>
               concat_channels (result\<lparr>channels := (channels result)[i := channelData']\<rparr>)
                 is buffers))"

definition concatenateAudioBuffers :: "AudioBuffer list \<Rightarrow> dom_error + AudioBuffer" where
  "concatenateAudioBuffers buffers =
     (case buffers of
        [] \<Rightarrow> createBuffer 1 1 24000
      | first # _ \<Rightarrow>
          (let totalLength = foldl (\<lambda>acc buf. acc + length_frames buf) 0 buffers in
           case createBuffer (numberOfChannels first) totalLength (sampleRate first) of
             Inl e \<Rightarrow> Inl e
           | Inr result \<Rightarrow> concat_channels result [0..<numberOfChannels first] buffers))"


subsection \<open>audioBufferToWavBlob\<close>

text \<open>
  What \<open>setInt16\<close> makes of a number that is not whole: it drops the fraction (and then
  reduces modulo \<open>2^16\<close>, as for every argument).
\<close>

definition js_truncate :: "real \<Rightarrow> int" where
  "js_truncate x = (if 0 \<le> x then \<lfloor>x\<rfloor> else \<lceil>x\<rceil>)"

text \<open>
  \<open>Math.max(-1, Math.min(1, x))\<close>, scaled by 32768 below zero and by 32767 from zero
  on. A sample is a 32-bit float, so the product is exact in the host's arithmetic.
\<close>

definition float_to_pcm16 :: "real \<Rightarrow> int" where
  "float_to_pcm16 x =
     (let sample = max (- 1) (min 1 x)
      in js_truncate (if sample < 0 then sample * 32768 else sample * 32767))"

text \<open>The loop over the samples of the only channel of a mono buffer.\<close>

fun write_mono :: "byte list \<Rightarrow> nat \<Rightarrow> real list \<Rightarrow> byte list option" where
  "write_mono view offset [] = Some view"
| "write_mono view offset (x # xs) =
     (case setInt16 view offset (float_to_pcm16 x) of
        None \<Rightarrow> None
      | Some view' \<Rightarrow> write_mono view' (offset + 2) xs)"

text \<open>
  The two nested loops that interleave the channels: frame \<open>i\<close>, then channel. A
  channel array that is too short yields \<open>undefined\<close>, which ends up as the sample 0.
\<close>

fun write_frame ::
  "byte list \<Rightarrow> real list list \<Rightarrow> nat \<Rightarrow> nat \<Rightarrow> nat list \<Rightarrow> byte list option" where
  "write_frame view chans numChannels i [] = Some view"
| "write_frame view chans numChannels i (channel # rest) =
     (let sample = (case at_index (chans ! channel) i of
                      None \<Rightarrow> 0
                    | Some x \<Rightarrow> float_to_pcm16 x);
          sampleIndex = (i * numChannels + channel) * 2
      in case setInt16 view (44 + sampleIndex) sample of
           None \<Rightarrow> None
         | Some view' \<Rightarrow> write_frame view' chans numChannels i rest)"

fun write_frames ::
  "byte list \<Rightarrow> real list list \<Rightarrow> nat \<Rightarrow> nat list \<Rightarrow> byte list option" where
  "write_frames view chans numChannels [] = Some view"
| "write_frames view chans numChannels (i # rest) =
     (case write_frame view chans numChannels i [0..<numChannels] of
        None \<Rightarrow> None
      | Some view' \<Rightarrow> write_frames view' chans numChannels rest)"

definition audioBufferToWavBlob :: "AudioBuffer \<Rightarrow> byte list option" where
  "audioBufferToWavBlob buffer =
     (let numChannels = numberOfChannels buffer;
          format = 1;
          bitDepth = 16;
          blockAlign = numChannels * (bitDepth div 8);
          byteRate = sampleRate buffer * blockAlign;
          dataSize = length_frames buffer * blockAlign;
          headerSize = 44;
          totalSize = headerSize + dataSize;
          view = replicate totalSize 0
      in do {
           view \<leftarrow> wav_header view totalSize format numChannels (sampleRate buffer) byteRate
                     blockAlign bitDepth dataSize;
           if numChannels = 1 then write_mono view 44 (channels buffer ! 0)
           else write_frames view (channels buffer) numChannels [0..<length_frames buffer]
         })"


section \<open>types.ts\<close>

text \<open>
  A segment carries its 1-based index, its text and, once synthesised, its audio. The
  field \<open>text\<close> of the source is \<open>segmentText\<close> here. A story has its fixed segment
  count, its outline and the segments generated so far.
\<close>

record StorySegment =
  index :: nat
  segmentText :: jsstring
  audioBuffer :: "AudioBuffer option"

record AudioStory =
  totalSegmentsEstimate :: nat
  outline :: "json list"
  segments :: "StorySegment list"

datatype AppState =
    PLANNING
  | CALCULATING_ROUTE
  | ROUTE_CONFIRMED
  | GENERATING_INITIAL_SEGMENT
  | READY_TO_PLAY
  | PLAYING

text \<open>The numeric value of the enum member, which \<open><\<close> and \<open>>=\<close> compare.\<close>

fun AppState_value :: "AppState \<Rightarrow> nat" where
  "AppState_value PLANNING = 0"
| "AppState_value CALCULATING_ROUTE = 1"
| "AppState_value ROUTE_CONFIRMED = 2"
| "AppState_value GENERATING_INITIAL_SEGMENT = 3"
| "AppState_value READY_TO_PLAY = 4"
| "AppState_value PLAYING = 5"

text \<open>\<open>segment?.audioBuffer\<close>: the buffer of a segment that exists and has one.\<close>

definition audio_of :: "StorySegment option \<Rightarrow> AudioBuffer option" where
  "audio_of segment = (case segment of None \<Rightarrow> None | Some s \<Rightarrow> audioBuffer s)"

text \<open>\<open>AudioBuffer.duration\<close>, in seconds.\<close>

definition duration :: "AudioBuffer \<Rightarrow> real" where
  "duration buffer = real (length_frames buffer) / real (sampleRate buffer)"

section \<open>The story player component\<close>

text \<open>
  The props the parent passes at a render. Every handler is a closure over the props of
  the render that created it.
\<close>

record PlayerProps =
  story :: AudioStory
  isBackgroundGenerating :: bool
  playbackSpeed :: real

text \<open>
  The buffer source node a call of \<open>playSegment\<close> creates: the buffer it plays, its
  playback rate, the offset it was started at, the props its \<open>onended\<close> handler has
  closed over, and whether it has already run to its end.
\<close>

record SourceNode =
  buffer :: AudioBuffer
  playbackRate :: real
  startedAt :: real
  closure :: PlayerProps
  ended :: bool

text \<open>
  The state and the refs of the component. \<open>audioContextRef\<close> tells whether the audio
  context exists; its clock \<open>currentTime\<close> is an input of every step. \<open>renderedSpeed\<close>
  is the playback speed of the last render, which decides whether the speed effect runs.
  The polling that moves the progress bar is left out: it reads the state and the clock
  and writes \<open>segmentProgress\<close> only.
\<close>

record Player =
  isPlaying :: bool
  currentSegmentIndex :: nat
  isBuffering :: bool
  autoScroll :: bool
  segmentProgress :: real
  audioContextRef :: bool
  sourceRef :: "SourceNode option"
  startTimeRef :: real
  segmentOffsetRef :: real
  indexRef :: nat
  renderedSpeed :: real

definition initial_player :: "real \<Rightarrow> Player" where
  "initial_player speed =
     \<lparr>isPlaying = False, currentSegmentIndex = 0, isBuffering = False, autoScroll = True,
      segmentProgress = 0, audioContextRef = False, sourceRef = None, startTimeRef = 0,
      segmentOffsetRef = 0, indexRef = 0, renderedSpeed = speed\<rparr>"

definition stopAudio :: "Player \<Rightarrow> Player" where
  "stopAudio p = (case sourceRef p of None \<Rightarrow> p | Some source \<Rightarrow> p\<lparr>sourceRef := None\<rparr>)"

text \<open>
  \<open>playSegment(segment, offset)\<close> at clock \<open>now\<close>: without audio it only raises the
  buffering flag; otherwise it makes sure the context exists, stops the old source,
  starts a new one at the offset and records the reference start time.
\<close>

definition playSegment :: "PlayerProps \<Rightarrow> real \<Rightarrow> StorySegment option \<Rightarrow> real \<Rightarrow> Player \<Rightarrow> Player" where
  "playSegment props now segment offset p =
     (case audio_of segment of
        None \<Rightarrow> p\<lparr>isBuffering := True\<rparr>
      | Some audio \<Rightarrow>
          (let p1 = p\<lparr>audioContextRef := True\<rparr>;
               p2 = stopAudio p1;
               source = \<lparr>buffer = audio, playbackRate = playbackSpeed props,
                         startedAt = offset, closure = props, ended = False\<rparr>
           in p2\<lparr>sourceRef := Some source,
                 startTimeRef := now - offset / playbackSpeed props\<rparr>))"

definition handleSegmentEnd :: "PlayerProps \<Rightarrow> real \<Rightarrow> Player \<Rightarrow> Player" where
  "handleSegmentEnd props now p =
     (let currentIndex = indexRef p;
          nextIndex = currentIndex + 1;
          p1 = p\<lparr>currentSegmentIndex := nextIndex, segmentProgress := 0, segmentOffsetRef := 0\<rparr>
      in case audio_of (at_index (segments (story props)) nextIndex) of
           Some audio \<Rightarrow> playSegment props now (at_index (segments (story props)) nextIndex) 0 p1
         | None \<Rightarrow>
             if nextIndex \<ge> totalSegmentsEstimate (story props) \<and> \<not> isBackgroundGenerating props
             then p1\<lparr>isPlaying := False\<rparr>
             else p1\<lparr>isBuffering := True\<rparr>)"

text \<open>
  The \<open>onended\<close> handler of a source, run at clock \<open>now\<close> with the props it has closed
  over: it advances only when the source has played (almost) to its expected end.
\<close>

definition onended :: "SourceNode \<Rightarrow> real \<Rightarrow> Player \<Rightarrow> Player" where
  "onended source now p =
     (let duration = duration (buffer source) / playbackSpeed (closure source)
      in if \<not> audioContextRef p then p
         else let elapsed = now - startTimeRef p
              in if elapsed \<ge> duration - 0.5 then handleSegmentEnd (closure source) now p else p)"

definition togglePlayback :: "PlayerProps \<Rightarrow> real \<Rightarrow> Player \<Rightarrow> Player" where
  "togglePlayback props now p =
     (if isPlaying p then
        (let p1 = (if audioContextRef p \<and> \<not> isBuffering p
                   then p\<lparr>segmentOffsetRef := (now - startTimeRef p) * playbackSpeed props\<rparr>
                   else p);
             p2 = stopAudio p1
         in p2\<lparr>isPlaying := False, autoScroll := False\<rparr>)
      else
        (let p1 = p\<lparr>isPlaying := True\<rparr>;
             currentSegment = at_index (segments (story props)) (currentSegmentIndex p)
         in case audio_of currentSegment of
              Some audio \<Rightarrow>
                (playSegment props now currentSegment (segmentOffsetRef p1)
                   (p1\<lparr>isBuffering := False\<rparr>))\<lparr>autoScroll := True\<rparr>
            | None \<Rightarrow> p1\<lparr>isBuffering := True\<rparr>))"

text \<open>
  The effects that run after a render with the given props: the live source takes a
  changed playback speed, \<open>indexRef\<close> follows the index, and a player that is buffering
  starts the current segment from its beginning as soon as its audio is there.
\<close>

definition speed_effect :: "PlayerProps \<Rightarrow> Player \<Rightarrow> Player" where
  "speed_effect props p =
     (if playbackSpeed props = renderedSpeed p then p
      else (case sourceRef p of
              None \<Rightarrow> p
            | Some source \<Rightarrow> p\<lparr>sourceRef := Some (source\<lparr>playbackRate := playbackSpeed props\<rparr>)\<rparr>)
           \<lparr>renderedSpeed := playbackSpeed props\<rparr>)"

definition buffering_effect :: "PlayerProps \<Rightarrow> real \<Rightarrow> Player \<Rightarrow> Player" where
  "buffering_effect props now p =
     (let segmentNowReady = at_index (segments (story props)) (currentSegmentIndex p)
      in if isBuffering p \<and> isPlaying p \<and> audio_of segmentNowReady \<noteq> None
         then playSegment props now segmentNowReady 0 (p\<lparr>isBuffering := False\<rparr>)
         else p)"

definition run_effects :: "PlayerProps \<Rightarrow> real \<Rightarrow> Player \<Rightarrow> Player" where
  "run_effects props now p =
     buffering_effect props now
       ((speed_effect props p)\<lparr>indexRef := currentSegmentIndex p\<rparr>)"

text \<open>
  What can happen to a mounted player: the user presses the play button, the live source
  runs to its end, or the parent renders it again with new props. A source fires its
  \<open>onended\<close> handler once, and not at all after \<open>stopAudio\<close> has detached it.
\<close>

datatype PlayerEvent = Toggle | SourceEnded | Rerender

definition player_step :: "PlayerProps \<Rightarrow> real \<Rightarrow> PlayerEvent \<Rightarrow> Player \<Rightarrow> Player" where
  "player_step props now ev p =
     (case ev of
        Toggle \<Rightarrow> run_effects props now (togglePlayback props now p)
      | Rerender \<Rightarrow> run_effects props now p
      | SourceEnded \<Rightarrow>
          (case sourceRef p of
             None \<Rightarrow> p
           | Some source \<Rightarrow>
               if ended source then p
               else run_effects props now
                      (onended source now (p\<lparr>sourceRef := Some (source\<lparr>ended := True\<rparr>)\<rparr>))))"

text \<open>A session: the steps of a player from its mount on, each with its props and clock.\<close>

fun player_run :: "(PlayerProps \<times> real \<times> PlayerEvent) list \<Rightarrow> Player \<Rightarrow> Player" where
  "player_run [] p = p"
| "player_run ((props, now, ev) # rest) p = player_run rest (player_step props now ev p)"

text \<open>
  The props a player of a story with \<open>N\<close> segments can be given: the segment count is
  fixed for the life of the story and the store holds at most that many segments.
\<close>

definition props_of_story :: "nat \<Rightarrow> PlayerProps \<Rightarrow> bool" where
  "props_of_story N props \<longleftrightarrow>
     totalSegmentsEstimate (story props) = N
     \<and> length (segments (story props)) \<le> N"


section \<open>Invariant and sample data of the player\<close>

text \<open>
  What every step of a player of a story with \<open>N\<close> segments keeps: the index is at most
  \<open>N\<close>, \<open>indexRef\<close> agrees with it, and a source that has not yet ended plays a
  segment below \<open>N\<close>.
\<close>

definition player_inv :: "nat \<Rightarrow> Player \<Rightarrow> bool" where
  "player_inv N p \<longleftrightarrow>
     currentSegmentIndex p \<le> N
     \<and> indexRef p = currentSegmentIndex p
     \<and> (\<forall>source. sourceRef p = Some source \<longrightarrow>
           props_of_story N (closure source) \<and> (ended source \<or> currentSegmentIndex p < N))"


text \<open>A story of one segment with ten seconds of audio, and the props that show it.\<close>

definition demo_audio :: AudioBuffer where
  "demo_audio = \<lparr>sampleRate = 1, length_frames = 10, channels = [[0, 0, 0, 0, 0, 0, 0, 0, 0, 0]]\<rparr>"

definition demo_story :: AudioStory where
  "demo_story = \<lparr>totalSegmentsEstimate = 1, outline = [JStr [65]],
     segments = [\<lparr>index = 1, segmentText = [72, 105], audioBuffer = Some demo_audio\<rparr>]\<rparr>"

definition demo_props :: PlayerProps where
  "demo_props = \<lparr>story = demo_story, isBackgroundGenerating = False, playbackSpeed = 1\<rparr>"




section \<open>The application component\<close>

subsection \<open>Awaited calls and withTimeout\<close>

text \<open>
  How an awaited call ends: it fulfils with a value or rejects, at some time (in
  milliseconds after the call), or it never settles.
\<close>

datatype 'a settled = Fulfilled real 'a | Rejected real | Pending

definition WITH_TIMEOUT_MS :: real where
  "WITH_TIMEOUT_MS = 60000"

text \<open>
  \<open>withTimeout(promise, ms, errorMsg)\<close>: the race of the call against a timer of \<open>ms\<close>
  milliseconds. A call that has not settled before the timer fires loses the race.
\<close>

definition withTimeout :: "'a settled \<Rightarrow> real \<Rightarrow> 'a settled" where
  "withTimeout promise ms =
     (case promise of
        Fulfilled t v \<Rightarrow> if t < ms then Fulfilled t v else Rejected ms
      | Rejected t \<Rightarrow> if t < ms then Rejected t else Rejected ms
      | Pending \<Rightarrow> Rejected ms)"


subsection \<open>State\<close>

datatype StoryStyle = NOIR | CHILDREN | HISTORICAL | FANTASY | CYBERPUNK | ADVENTURE | ZEN

text \<open>The route; the field \<open>duration\<close> of the source (a label) is \<open>durationLabel\<close> here.\<close>

record RouteDetails =
  startAddress :: jsstring
  endAddress :: jsstring
  distance :: jsstring
  durationLabel :: jsstring
  durationSeconds :: real
  travelMode :: jsstring
  storyStyle :: StoryStyle

text \<open>
  A call of \<open>generateNextSegment\<close> that is waiting for its text and audio, with what it
  has closed over: the index, and the story, route and voice of the render that made it.
\<close>

record GenTask =
  taskIndex :: nat
  taskStory :: AudioStory
  taskRoute :: RouteDetails
  taskVoice :: jsstring

text \<open>
  A call of \<open>handleVoiceChange\<close> that is waiting for its audio: the playing index and
  the segment it read from the story of its render, and the new voice.
\<close>

record VoiceTask =
  voiceIndex :: nat
  voiceSegment :: StorySegment
  voiceName :: jsstring

text \<open>
  The state of the component that the scheduler uses. The state variables \<open>story\<close> and
  \<open>isBackgroundGenerating\<close> of the source are \<open>currentStory\<close> and
  \<open>backgroundGenerating\<close> here. \<open>storyRef\<close> and \<open>routeRef\<close> count the objects the
  state has held: an effect runs again when a dependency is a new object, not when it is
  a different value. \<open>generating\<close>, \<open>voicing\<close> and \<open>starting\<close> hold the calls that are
  waiting, oldest first. \<open>sparse\<close> is raised when an assignment beyond the end of the
  segment array has left empty slots in it, which the list of segments cannot show.
\<close>

record App =
  appState :: AppState
  route :: "RouteDetails option"
  currentStory :: "AudioStory option"
  selectedVoice :: jsstring
  isGeneratingRef :: bool
  backgroundGenerating :: bool
  currentPlayingIndex :: nat
  storyRef :: nat
  routeRef :: nat
  generating :: "GenTask list"
  voicing :: "VoiceTask list"
  starting :: "RouteDetails list"
  sparse :: bool

definition voice_Zephyr :: jsstring where
  "voice_Zephyr = [90, 101, 112, 104, 121, 114]"

definition initial_app :: App where
  "initial_app =
     \<lparr>appState = PLANNING, route = None, currentStory = None, selectedVoice = voice_Zephyr,
      isGeneratingRef = False, backgroundGenerating = False, currentPlayingIndex = 0,
      storyRef = 0, routeRef = 0, generating = [], voicing = [], starting = [],
      sparse = False\<rparr>"

subsection \<open>Updating the story\<close>

text \<open>
  What a functional update \<open>setStory(prev => ...)\<close> returns: the object it was given, a
  new object, or an array with empty slots.
\<close>

datatype 'a update = Keep | Replace 'a | Sparse

definition setStory :: "(AudioStory option \<Rightarrow> AudioStory option update) \<Rightarrow> App \<Rightarrow> App" where
  "setStory updater app =
     (case updater (currentStory app) of
        Keep \<Rightarrow> app
      | Replace new \<Rightarrow> app\<lparr>currentStory := new, storyRef := storyRef app + 1\<rparr>
      | Sparse \<Rightarrow> app\<lparr>sparse := True, storyRef := storyRef app + 1\<rparr>)"

text \<open>
  The update with which \<open>generateNextSegment\<close> commits a generated segment:
  \<open>if (!prev || prev.segments.some(s => s.index === index)) return prev;\<close> and otherwise
  the segment, with its audio, is added and the array sorted by index (the sort of the
  host is stable).
\<close>

definition commit_segment ::
  "nat \<Rightarrow> StorySegment \<Rightarrow> AudioBuffer \<Rightarrow> AudioStory option \<Rightarrow> AudioStory option update" where
  "commit_segment i segmentData audio prev =
     (case prev of
        None \<Rightarrow> Keep
      | Some p \<Rightarrow>
          if list_ex (\<lambda>s. index s = i) (segments p) then Keep
          else Replace (Some (p\<lparr>segments :=
                 sort_key index (segments p @ [segmentData\<lparr>audioBuffer := Some audio\<rparr>])\<rparr>)))"

text \<open>
  The update with which \<open>handleVoiceChange\<close> stores the new audio:
  \<open>updated[currentPlayingIndex] = { ...currentSeg, audioBuffer: newAudio }\<close> on a copy
  of the array. An assignment at the length appends; one beyond it leaves empty slots.
\<close>

definition voice_update ::
  "nat \<Rightarrow> StorySegment \<Rightarrow> AudioBuffer \<Rightarrow> AudioStory option \<Rightarrow> AudioStory option update" where
  "voice_update i currentSeg newAudio prev =
     (case prev of
        None \<Rightarrow> Keep
      | Some p \<Rightarrow>
          (let updated = segments p;
               entry = currentSeg\<lparr>audioBuffer := Some newAudio\<rparr>
           in if i < length updated then Replace (Some (p\<lparr>segments := updated[i := entry]\<rparr>))
              else if i = length updated then Replace (Some (p\<lparr>segments := updated @ [entry]\<rparr>))
              else Sparse))"

subsection \<open>The generation trigger and generateNextSegment\<close>

text \<open>
  The first part of \<open>generateNextSegment(index)\<close>, up to its first \<open>await\<close>: it returns
  at once without a route or a story or while the flag is set; otherwise it sets the flag
  and its call waits for the text and the audio.
\<close>

definition generateNextSegment :: "nat \<Rightarrow> App \<Rightarrow> App" where
  "generateNextSegment i app =
     (case (route app, currentStory app) of
        (Some r, Some s) \<Rightarrow>
          if isGeneratingRef app then app
          else app\<lparr>isGeneratingRef := True, backgroundGenerating := True,
                   generating := generating app
                     @ [\<lparr>taskIndex = i, taskStory = s, taskRoute = r,
                          taskVoice = selectedVoice app\<rparr>]\<rparr>
      | _ \<Rightarrow> app)"

text \<open>The body of the effect that watches the story, the route, the state, the playing
  index and the voice.\<close>

definition generation_effect :: "App \<Rightarrow> App" where
  "generation_effect app =
     (case (currentStory app, route app) of
        (Some s, Some r) \<Rightarrow>
          if AppState_value (appState app) < AppState_value READY_TO_PLAY then app
          else (let totalGenerated = length (segments s)
                in if totalGenerated < currentPlayingIndex app + 3
                      \<and> totalGenerated < totalSegmentsEstimate s
                      \<and> \<not> isGeneratingRef app
                   then generateNextSegment (totalGenerated + 1) app
                   else app)
      | _ \<Rightarrow> app)"

text \<open>
  The rest of a waiting \<open>generateNextSegment\<close> call, once its two awaited calls have
  ended as given (the audio call is made only after the text has arrived): the segment is
  committed when both arrive in time, and in every case the \<open>finally\<close> block releases the
  flag.
\<close>

definition remove_nth :: "nat \<Rightarrow> 'a list \<Rightarrow> 'a list" where
  "remove_nth k xs = take k xs @ drop (Suc k) xs"

definition generation_settled :: "nat \<Rightarrow> jsstring settled \<Rightarrow> AudioBuffer settled \<Rightarrow> App \<Rightarrow> App" where
  "generation_settled k textCall audioCall app =
     (case at_index (generating app) k of
        None \<Rightarrow> app
      | Some task \<Rightarrow>
          (let app1 = app\<lparr>generating := remove_nth k (generating app)\<rparr>;
               app2 =
                 (case withTimeout textCall WITH_TIMEOUT_MS of
                    Fulfilled t1 segText \<Rightarrow>
                      (case withTimeout audioCall (WITH_TIMEOUT_MS * 1.5) of
                         Fulfilled t2 audio \<Rightarrow>
                           setStory (commit_segment (taskIndex task)
                             \<lparr>index = taskIndex task, segmentText = segText, audioBuffer = None\<rparr>
                             audio) app1
                       | _ \<Rightarrow> app1)
                  | _ \<Rightarrow> app1)
           in app2\<lparr>isGeneratingRef := False, backgroundGenerating := False\<rparr>))"


subsection \<open>The other handlers\<close>

definition handleVoiceChange :: "jsstring \<Rightarrow> App \<Rightarrow> App" where
  "handleVoiceChange newVoice app =
     (let app1 = app\<lparr>selectedVoice := newVoice\<rparr>
      in case currentStory app of
           None \<Rightarrow> app1
         | Some s \<Rightarrow>
             if AppState_value (appState app) \<ge> AppState_value READY_TO_PLAY then
               (case at_index (segments s) (currentPlayingIndex app) of
                  None \<Rightarrow> app1
                | Some currentSeg \<Rightarrow>
                    app1\<lparr>backgroundGenerating := True,
                          voicing := voicing app
                            @ [\<lparr>voiceIndex = currentPlayingIndex app, voiceSegment = currentSeg,
                                 voiceName = newVoice\<rparr>]\<rparr>)
             else app1)"

text \<open>
  The rest of a waiting \<open>handleVoiceChange\<close> call, once its audio call has ended with
  the given audio or has failed.
\<close>

definition voice_settled :: "nat \<Rightarrow> AudioBuffer option \<Rightarrow> App \<Rightarrow> App" where
  "voice_settled k audioCall app =
     (case at_index (voicing app) k of
        None \<Rightarrow> app
      | Some task \<Rightarrow>
          (let app1 = app\<lparr>voicing := remove_nth k (voicing app)\<rparr>;
               app2 =
                 (case audioCall of
                    Some newAudio \<Rightarrow>
                      setStory (voice_update (voiceIndex task) (voiceSegment task) newAudio) app1
                  | None \<Rightarrow> app1)
           in app2\<lparr>backgroundGenerating := False\<rparr>))"

definition handleReset :: "App \<Rightarrow> App" where
  "handleReset app =
     app\<lparr>appState := PLANNING, route := None, currentStory := None, currentPlayingIndex := 0,
         storyRef := (if currentStory app = None then storyRef app else storyRef app + 1),
         routeRef := (if route app = None then routeRef app else routeRef app + 1)\<rparr>"

text \<open>
  \<open>handleStartStory\<close> up to its first \<open>await\<close>, and the rest of the oldest waiting
  call once its outline, first text and first audio calls have ended as given.
\<close>

definition handleStartStory :: "App \<Rightarrow> App" where
  "handleStartStory app =
     (case route app of
        None \<Rightarrow> app
      | Some r \<Rightarrow> app\<lparr>appState := GENERATING_INITIAL_SEGMENT, starting := starting app @ [r]\<rparr>)"

definition start_settled ::
  "json list settled \<Rightarrow> jsstring settled \<Rightarrow> AudioBuffer settled \<Rightarrow> App \<Rightarrow> App" where
  "start_settled outlineCall textCall audioCall app =
     (case starting app of
        [] \<Rightarrow> app
      | r # rest \<Rightarrow>
          (let app1 = app\<lparr>starting := rest\<rparr>;
               failed = app1\<lparr>appState := PLANNING\<rparr>;
               totalSegmentsEstimate = nat (calculateTotalSegments (durationSeconds r))
           in case withTimeout outlineCall WITH_TIMEOUT_MS of
                Fulfilled t0 ol \<Rightarrow>
                  (case withTimeout textCall WITH_TIMEOUT_MS of
                     Fulfilled t1 segText \<Rightarrow>
                       (case withTimeout audioCall (WITH_TIMEOUT_MS * 1.5) of
                          Fulfilled t2 seg1Audio \<Rightarrow>
                            app1\<lparr>currentStory :=
                                    Some \<lparr>totalSegmentsEstimate = totalSegmentsEstimate,
                                          outline = ol,
                                          segments = [\<lparr>index = 1, segmentText = segText,
                                                       audioBuffer = Some seg1Audio\<rparr>]\<rparr>,
                                  storyRef := storyRef app + 1,
                                  appState := READY_TO_PLAY\<rparr>
                        | _ \<Rightarrow> failed)
                   | _ \<Rightarrow> failed)
              | _ \<Rightarrow> failed))"

subsection \<open>Steps\<close>

text \<open>
  What can happen to the component: the planner reports a route, the user confirms it,
  the calls of a waiting \<open>handleStartStory\<close>, \<open>generateNextSegment\<close> or
  \<open>handleVoiceChange\<close> end, the player reports a new playing index, the user picks a
  voice or ends the story.
\<close>

datatype AppEvent =
    RouteUpdate "RouteDetails option"
  | ConfirmRoute
  | StartSettled "json list settled" "jsstring settled" "AudioBuffer settled"
  | SegmentChange nat
  | GenerationSettled nat "jsstring settled" "AudioBuffer settled"
  | VoiceChange jsstring
  | VoiceSettled nat "AudioBuffer option"
  | Reset

definition handle :: "AppEvent \<Rightarrow> App \<Rightarrow> App" where
  "handle ev app =
     (case ev of
        RouteUpdate details \<Rightarrow>
          app\<lparr>route := details,
              routeRef := (if details = None \<and> route app = None then routeRef app
                           else routeRef app + 1)\<rparr>
      | ConfirmRoute \<Rightarrow> handleStartStory app
      | StartSettled outlineCall textCall audioCall \<Rightarrow>
          start_settled outlineCall textCall audioCall app
      | SegmentChange i \<Rightarrow> app\<lparr>currentPlayingIndex := i\<rparr>
      | GenerationSettled k textCall audioCall \<Rightarrow> generation_settled k textCall audioCall app
      | VoiceChange newVoice \<Rightarrow> handleVoiceChange newVoice app
      | VoiceSettled k audioCall \<Rightarrow> voice_settled k audioCall app
      | Reset \<Rightarrow> handleReset app)"

text \<open>The dependencies of the generation effect.\<close>

definition effect_deps :: "App \<Rightarrow> nat \<times> nat \<times> AppState \<times> nat \<times> jsstring" where
  "effect_deps app =
     (storyRef app, routeRef app, appState app, currentPlayingIndex app, selectedVoice app)"

text \<open>A step: the handler runs, and the effect after it when a dependency has changed.\<close>

definition app_step :: "AppEvent \<Rightarrow> App \<Rightarrow> App" where
  "app_step ev app =
     (let app1 = handle ev app
      in if effect_deps app1 = effect_deps app then app1 else generation_effect app1)"

fun app_run :: "AppEvent list \<Rightarrow> App \<Rightarrow> App" where
  "app_run [] app = app"
| "app_run (ev # evs) app = app_run evs (app_step ev app)"


section \<open>Invariants and sample data of the application\<close>





text \<open>
  A walking route of five minutes and a start of its story: five segments, the first
  one generated.
\<close>

definition demo_route :: RouteDetails where
  "demo_route = \<lparr>startAddress = [65], endAddress = [66], distance = [49], durationLabel = [53],
     durationSeconds = 300, travelMode = [87, 65, 76, 75, 73, 78, 71], storyStyle = NOIR\<rparr>"

definition demo_outline :: "json list" where
  "demo_outline = [JStr [49], JStr [50], JStr [51], JStr [52], JStr [53]]"

definition demo_story5 :: AudioStory where
  "demo_story5 = \<lparr>totalSegmentsEstimate = 5, outline = demo_outline,
     segments = [\<lparr>index = 1, segmentText = [72, 105], audioBuffer = Some demo_audio\<rparr>]\<rparr>"

definition demo_start :: "AppEvent list" where
  "demo_start = [RouteUpdate (Some demo_route), ConfirmRoute,
     StartSettled (Fulfilled 1000 demo_outline) (Fulfilled 2000 [72, 105]) (Fulfilled 3000 demo_audio)]"









text \<open>Sample states and runs: a released flag, a voice change, and a story ended and
  replaced while a generation is waiting.\<close>

definition demo_released :: App where
  "demo_released =
     \<lparr>appState = READY_TO_PLAY, route = Some demo_route, currentStory = Some demo_story5,
      selectedVoice = voice_Zephyr, isGeneratingRef = False, backgroundGenerating = False,
      currentPlayingIndex = 0, storyRef = 1, routeRef = 1, generating = [],
      voicing = [], starting = [], sparse = False\<rparr>"


definition demo_audio2 :: AudioBuffer where
  "demo_audio2 = \<lparr>sampleRate = 1, length_frames = 2, channels = [[1, 1]]\<rparr>"


definition demo_route2 :: RouteDetails where
  "demo_route2 = \<lparr>startAddress = [67], endAddress = [68], distance = [50], durationLabel = [50],
     durationSeconds = 120, travelMode = [68, 82, 73, 86, 73, 78, 71], storyStyle = ZEN\<rparr>"

definition demo_story2 :: AudioStory where
  "demo_story2 = \<lparr>totalSegmentsEstimate = 2, outline = [JStr [97], JStr [98]],
     segments = [\<lparr>index = 1, segmentText = [66], audioBuffer = Some demo_audio\<rparr>]\<rparr>"

definition cross_story_events :: "AppEvent list" where
  "cross_story_events = demo_start
     @ [Reset, RouteUpdate (Some demo_route2), ConfirmRoute,
        StartSettled (Fulfilled 1000 [JStr [97], JStr [98]]) (Fulfilled 2000 [66])
          (Fulfilled 3000 demo_audio)]"







section \<open>Properties of the segment count\<close>

lemma calculateTotalSegments_eq:
  "calculateTotalSegments d = max 1 \<lceil>d / 60\<rceil>"
  by (simp add: calculateTotalSegments_def TARGET_SEGMENT_DURATION_SEC_def)

lemma calculateTotalSegments_covers:
  "d \<le> 60 * real_of_int (calculateTotalSegments d)"
proof -
  have "d / 60 \<le> real_of_int \<lceil>d / 60\<rceil>" by (rule le_of_int_ceiling)
  also have "\<dots> \<le> real_of_int (calculateTotalSegments d)"
    by (simp add: calculateTotalSegments_eq)
  finally show ?thesis by simp
qed

lemma calculateTotalSegments_tight:
  assumes "60 < d"
  shows "60 * (real_of_int (calculateTotalSegments d) - 1) < d"
proof -
  have "1 < d / 60" using assms by simp
  then have "1 < \<lceil>d / 60\<rceil>" by (simp add: less_ceiling_iff)
  then have eq: "calculateTotalSegments d = \<lceil>d / 60\<rceil>"
    by (simp add: calculateTotalSegments_eq)
  have "real_of_int \<lceil>d / 60\<rceil> - 1 < d / 60"
    using ceiling_correct [of "d / 60"] by simp
  then show ?thesis by (simp add: eq)
qed

text \<open>
  C7. For every duration \<open>d \<ge> 0\<close> the segment count is \<open>max(1, ceil(d/60))\<close>: it is 1 up
  to one minute, and beyond that the least number of whole minutes that cover \<open>d\<close>.
  The sample values are 0 to 1, 59 to 1, 60 to 1, 61 to 2 and 600 to 10.
\<close>

theorem C7_calculateTotalSegments:
  "0 \<le> d \<Longrightarrow>
     calculateTotalSegments d = max 1 \<lceil>d / 60\<rceil>
   \<and> 1 \<le> calculateTotalSegments d
   \<and> d \<le> 60 * real_of_int (calculateTotalSegments d)
   \<and> (d \<le> 60 \<longrightarrow> calculateTotalSegments d = 1)
   \<and> (60 < d \<longrightarrow> 60 * (real_of_int (calculateTotalSegments d) - 1) < d)
   \<and> calculateTotalSegments 0 = 1
   \<and> calculateTotalSegments 59 = 1
   \<and> calculateTotalSegments 60 = 1
   \<and> calculateTotalSegments 61 = 2
   \<and> calculateTotalSegments 600 = 10"
proof -
  have small: "d \<le> 60 \<longrightarrow> calculateTotalSegments d = 1"
  proof
    assume "d \<le> 60"
    then have "d / 60 \<le> 1" by simp
    then have "\<lceil>d / 60\<rceil> \<le> 1" by (simp add: ceiling_le_iff)
    then show "calculateTotalSegments d = 1" by (simp add: calculateTotalSegments_eq)
  qed
  have ex: "calculateTotalSegments 0 = 1" "calculateTotalSegments 59 = 1"
    "calculateTotalSegments 60 = 1" "calculateTotalSegments 61 = 2"
    "calculateTotalSegments 600 = 10"
    by (simp_all add: calculateTotalSegments_eq)
  show ?thesis
    using small ex calculateTotalSegments_covers [of d] calculateTotalSegments_tight [of d]
    by (simp add: calculateTotalSegments_eq)
qed

theorem C7_calculateTotalSegments_witness:
  "(0::real) \<le> 61 \<and> calculateTotalSegments 61 = 2 \<and> (61::real) \<le> 60 * 2 \<and> 60 * (2 - 1) < (61::real)"
  using C7_calculateTotalSegments [of 61] by simp


section \<open>Properties of outline generation\<close>

lemma outline_pad_eq:
  "outline_pad ol n = ol @ replicate (n - length ol) (JStr OUTLINE_PAD_LINE)"
proof (induction ol n rule: outline_pad.induct)
  case (1 ol n)
  show ?case
  proof (cases "length ol < n")
    case True
    then have "n - length ol = Suc (n - Suc (length ol))" by simp
    with True 1 show ?thesis
      by (subst outline_pad.simps) (simp add: replicate_append_same)
  next
    case False
    then show ?thesis by (subst outline_pad.simps) simp
  qed
qed

lemma outline_try_length:
  "outline_try P r n = Inr out \<Longrightarrow> length out = n"
  by (auto simp: outline_try_def outline_pad_eq
      split: api_response.splits option.splits if_splits json.splits)

lemma outline_try_success:
  assumes "r = ApiResponse (Some t)" "js_trim t \<noteq> []" "P (js_trim t) = Some (JArr xs)" "xs \<noteq> []"
  shows "outline_try P r n = Inr (take n xs @ replicate (n - length xs) (JStr OUTLINE_PAD_LINE))"
  using assms by (simp add: outline_try_def outline_pad_eq)

lemma outline_try_failure:
  assumes "\<not> (\<exists>t xs. r = ApiResponse (Some t) \<and> js_trim t \<noteq> []
              \<and> P (js_trim t) = Some (JArr xs) \<and> xs \<noteq> [])"
  shows "\<exists>e. outline_try P r n = Inl e"
  using assms
  by (auto simp: outline_try_def split: api_response.splits option.splits json.splits)

text \<open>
  C8. For every requested chapter count \<open>N \<ge> 1\<close> the outline has exactly \<open>N\<close> entries,
  whatever the generator answers. When the answer parses to a non-empty array, the
  result is that array cut to \<open>N\<close> entries and padded up to \<open>N\<close> with the padding line;
  in every other case (rejected call, missing or blank text, unparsable text, a value
  that is not an array, an empty array) it is \<open>N\<close> copies of the fallback line and no
  error is raised.
\<close>

theorem C8_generateStoryOutline:
  "1 \<le> N \<Longrightarrow>
     length (generateStoryOutline P r N) = N
   \<and> (\<forall>t xs. r = ApiResponse (Some t) \<and> js_trim t \<noteq> [] \<and> P (js_trim t) = Some (JArr xs) \<and> xs \<noteq> []
        \<longrightarrow> generateStoryOutline P r N
              = take N xs @ replicate (N - length xs) (JStr OUTLINE_PAD_LINE))
   \<and> ((\<nexists>t xs. r = ApiResponse (Some t) \<and> js_trim t \<noteq> [] \<and> P (js_trim t) = Some (JArr xs) \<and> xs \<noteq> [])
        \<longrightarrow> generateStoryOutline P r N = replicate N (JStr OUTLINE_FALLBACK_LINE))
   \<and> generateStoryOutline P ApiRejected N = replicate N (JStr OUTLINE_FALLBACK_LINE)
   \<and> generateStoryOutline P (ApiResponse None) N = replicate N (JStr OUTLINE_FALLBACK_LINE)
   \<and> (\<forall>t. js_trim t = [] \<or> P (js_trim t) = None \<or> P (js_trim t) = Some (JArr [])
          \<or> (\<exists>v. P (js_trim t) = Some v \<and> (\<nexists>xs. v = JArr xs))
        \<longrightarrow> generateStoryOutline P (ApiResponse (Some t)) N
              = replicate N (JStr OUTLINE_FALLBACK_LINE))"
proof -
  have len: "length (generateStoryOutline P r N) = N"
    by (auto simp: generateStoryOutline_def dest: outline_try_length split: sum.splits)
  have ok: "\<forall>t xs. r = ApiResponse (Some t) \<and> js_trim t \<noteq> [] \<and> P (js_trim t) = Some (JArr xs) \<and> xs \<noteq> []
        \<longrightarrow> generateStoryOutline P r N
              = take N xs @ replicate (N - length xs) (JStr OUTLINE_PAD_LINE)"
    by (auto simp: generateStoryOutline_def outline_try_success)
  have bad: "(\<nexists>t xs. r = ApiResponse (Some t) \<and> js_trim t \<noteq> [] \<and> P (js_trim t) = Some (JArr xs) \<and> xs \<noteq> [])
        \<longrightarrow> generateStoryOutline P r N = replicate N (JStr OUTLINE_FALLBACK_LINE)"
  proof
    assume "\<nexists>t xs. r = ApiResponse (Some t) \<and> js_trim t \<noteq> [] \<and> P (js_trim t) = Some (JArr xs) \<and> xs \<noteq> []"
    then obtain e where "outline_try P r N = Inl e"
      using outline_try_failure [of r P N] by blast
    then show "generateStoryOutline P r N = replicate N (JStr OUTLINE_FALLBACK_LINE)"
      by (simp add: generateStoryOutline_def)
  qed
  have rej: "generateStoryOutline P ApiRejected N = replicate N (JStr OUTLINE_FALLBACK_LINE)"
    "generateStoryOutline P (ApiResponse None) N = replicate N (JStr OUTLINE_FALLBACK_LINE)"
    by (simp_all add: generateStoryOutline_def outline_try_def)
  have other: "\<forall>t. js_trim t = [] \<or> P (js_trim t) = None \<or> P (js_trim t) = Some (JArr [])
          \<or> (\<exists>v. P (js_trim t) = Some v \<and> (\<nexists>xs. v = JArr xs))
        \<longrightarrow> generateStoryOutline P (ApiResponse (Some t)) N
              = replicate N (JStr OUTLINE_FALLBACK_LINE)"
    by (auto simp: generateStoryOutline_def outline_try_def split: json.splits)
  from len ok bad rej other show ?thesis by blast
qed

theorem C8_generateStoryOutline_witness:
  "(1::nat) \<le> 3
   \<and> generateStoryOutline (\<lambda>s. Some (JArr [JStr [72, 105]])) (ApiResponse (Some [32, 91, 93])) 3
       = [JStr [72, 105], JStr OUTLINE_PAD_LINE, JStr OUTLINE_PAD_LINE]
   \<and> generateStoryOutline (\<lambda>s. Some (JArr [JNull, JNull, JNull, JNull])) (ApiResponse (Some [91, 93])) 3
       = [JNull, JNull, JNull]
   \<and> generateStoryOutline (\<lambda>s. Some (JArr [])) (ApiResponse (Some [91, 93])) 3
       = [JStr OUTLINE_FALLBACK_LINE, JStr OUTLINE_FALLBACK_LINE, JStr OUTLINE_FALLBACK_LINE]"
proof -
  have trim: "js_trim [32, 91, 93] = [91, 93]" "js_trim [91, 93] = [91, 93]"
    by (simp_all add: js_trim_def js_whitespace_def)
  show ?thesis
    using C8_generateStoryOutline [of 3 "\<lambda>s. Some (JArr [JStr [72, 105]])" "ApiResponse (Some [32, 91, 93])"]
      C8_generateStoryOutline [of 3 "\<lambda>s. Some (JArr [JNull, JNull, JNull, JNull])" "ApiResponse (Some [91, 93])"]
      C8_generateStoryOutline [of 3 "\<lambda>s. Some (JArr [])" "ApiResponse (Some [91, 93])"]
    by (simp add: trim numeral_3_eq_3)
qed

section \<open>Properties of the WAV encoder\<close>

lemma bytes4_nat:
  fixes n :: nat
  assumes "n < 4294967296"
  shows "n mod 256 + 256 * (n div 256 mod 256) + 65536 * (n div 65536 mod 256)
         + 16777216 * (n div 16777216 mod 256) = n"
proof -
  have a: "n mod (256 * 256) = 256 * (n div 256 mod 256) + n mod 256"
    by (rule mod_mult2_eq)
  have b: "n mod (65536 * 256) = 65536 * (n div 65536 mod 256) + n mod 65536"
    by (rule mod_mult2_eq)
  have c: "n mod (16777216 * 256) = 16777216 * (n div 16777216 mod 256) + n mod 16777216"
    by (rule mod_mult2_eq)
  have d: "n mod (16777216 * 256) = n" using assms by simp
  from a b c d show ?thesis by simp
qed

lemma bytes2_nat:
  fixes n :: nat
  assumes "n < 65536"
  shows "n mod 256 + 256 * (n div 256 mod 256) = n"
proof -
  have a: "n mod (256 * 256) = 256 * (n div 256 mod 256) + n mod 256"
    by (rule mod_mult2_eq)
  have d: "n mod (256 * 256) = n" using assms by simp
  from a d show ?thesis by simp
qed

lemma unat_le32: "unat (le32 w ! 0) + 256 * unat (le32 w ! 1) + 65536 * unat (le32 w ! 2) + 16777216 * unat (le32 w ! 3) = unat w"
proof -
  have lt: "unat w < 4294967296" using unsigned_less [of w, where 'a = nat] by simp
  then have "unat w div 16777216 < 256" by simp
  then have top: "unat w div 16777216 mod 256 = unat w div 16777216" by simp
  from bytes4_nat [OF lt] top show ?thesis
    by (simp add: le32_def unsigned_ucast_eq unat_drop_bit_eq drop_bit_eq_div take_bit_eq_mod unat_div)
qed

lemma unat_le16: "unat (le16 w ! 0) + 256 * unat (le16 w ! 1) = unat w"
proof -
  have lt: "unat w < 65536" using unsigned_less [of w, where 'a = nat] by simp
  then have "unat w div 256 < 256" by simp
  then have top: "unat w div 256 mod 256 = unat w div 256" by simp
  from bytes2_nat [OF lt] top show ?thesis
    by (simp add: le16_def unsigned_ucast_eq unat_drop_bit_eq drop_bit_eq_div take_bit_eq_mod unat_div)
qed


lemma length_store_bytes: "length (store_bytes v off bs) = length v"
  by (induction bs arbitrary: v off) auto

lemma nth_store_bytes:
  "off + length bs \<le> length v \<Longrightarrow>
   store_bytes v off bs ! i = (if off \<le> i \<and> i < off + length bs then bs ! (i - off) else v ! i)"
proof (induction bs arbitrary: v off)
  case Nil
  then show ?case by auto
next
  case (Cons b bs)
  then show ?case
    by (auto simp: nth_list_update nth_Cons' Suc_diff_le)
qed

lemma store_bytes_append:
  "store_bytes v off (a @ b) = store_bytes (store_bytes v off a) (off + length a) b"
  by (induction a arbitrary: v off) auto

lemma store_bytes_take_drop:
  "off + length bs \<le> length v \<Longrightarrow> store_bytes v off bs = take off v @ bs @ drop (off + length bs) v"
proof (induction bs arbitrary: v off)
  case Nil
  then show ?case by simp
next
  case (Cons b bs)
  then show ?case
    by (simp add: upd_conv_take_nth_drop take_Suc_conv_app_nth drop_Suc ac_simps)
qed

lemma writeString_eq:
  "off + length cs \<le> length v \<Longrightarrow> writeString v off cs = Some (store_bytes v off (map of_nat cs))"
  by (induction cs arbitrary: v off) (auto simp: setUint8_def)

lemma length_le16 [simp]: "length (le16 w) = 2" by (simp add: le16_def)
lemma length_le32 [simp]: "length (le32 w) = 4" by (simp add: le32_def)

lemma getUint32_store:
  assumes "off + 4 \<le> length v"
  shows "getUint32 (store_bytes v off (le32 w)) off = unat w"
  using assms unat_le32 [of w]
  by (simp add: getUint32_def nth_store_bytes)

lemma getUint16_store:
  assumes "off + 2 \<le> length v"
  shows "getUint16 (store_bytes v off (le16 w)) off = unat w"
  using assms unat_le16 [of w]
  by (simp add: getUint16_def nth_store_bytes)

lemma getUint32_frame:
  assumes "o2 + length bs \<le> length v" "off + 4 \<le> o2 \<or> o2 + length bs \<le> off"
  shows "getUint32 (store_bytes v o2 bs) off = getUint32 v off"
  using assms by (auto simp: getUint32_def nth_store_bytes)

lemma getUint16_frame:
  assumes "o2 + length bs \<le> length v" "off + 2 \<le> o2 \<or> o2 + length bs \<le> off"
  shows "getUint16 (store_bytes v o2 bs) off = getUint16 v off"
  using assms by (auto simp: getUint16_def nth_store_bytes)

lemma length_strs:
  "length str_RIFF = 4" "length str_WAVE = 4" "length str_fmt = 4" "length str_data = 4"
  by (simp_all add: str_RIFF_def str_WAVE_def str_fmt_def str_data_def)

lemma wav_header_eq:
  assumes "44 \<le> length v"
  shows "wav_header v ts f nc sr br ba bd ds =
    Some (store_bytes (store_bytes (store_bytes (store_bytes (store_bytes (store_bytes
      (store_bytes (store_bytes (store_bytes (store_bytes (store_bytes (store_bytes
      (store_bytes v 0 (map of_nat str_RIFF)) 4 (le32 (of_nat (ts - 8))))
        8 (map of_nat str_WAVE)) 12 (map of_nat str_fmt)) 16 (le32 (of_nat 16)))
        20 (le16 (of_nat f))) 22 (le16 (of_nat nc))) 24 (le32 (of_nat sr)))
        28 (le32 (of_nat br))) 32 (le16 (of_nat ba))) 34 (le16 (of_nat bd)))
        36 (map of_nat str_data)) 40 (le32 (of_nat ds)))"
  using assms
  by (simp add: wav_header_def writeString_eq setUint32_def setUint16_def length_store_bytes
      length_strs)



lemma bytes_at_store:
  assumes "off + length bs \<le> length v"
  shows "bytes_at (store_bytes v off bs) off (length bs) = bs"
  using assms by (simp add: bytes_at_def store_bytes_take_drop)

lemma bytes_at_frame:
  assumes "o2 + length bs \<le> length v" "off + n \<le> o2 \<or> o2 + length bs \<le> off"
  shows "bytes_at (store_bytes v o2 bs) off n = bytes_at v off n"
  unfolding bytes_at_def
proof (rule nth_equalityI)
  show "length (take n (drop off (store_bytes v o2 bs))) = length (take n (drop off v))"
    by (simp add: length_store_bytes)
next
  fix i assume "i < length (take n (drop off (store_bytes v o2 bs)))"
  then have i: "i < n" "off + i < length v" by (auto simp: length_store_bytes)
  then show "take n (drop off (store_bytes v o2 bs)) ! i = take n (drop off v) ! i"
    using assms by (auto simp: length_store_bytes nth_store_bytes)
qed

lemma le16_join: "le16 (ucast (lo :: byte) OR push_bit 8 (ucast (hi :: byte))) = [lo, hi]"
proof -
  have a: "ucast (ucast lo OR push_bit 8 (ucast hi) :: 16 word) = lo"
    by (rule bit_word_eqI) (auto simp: bit_simps dest: bit_imp_le_length)
  have b: "ucast (drop_bit 8 (ucast lo OR push_bit 8 (ucast hi) :: 16 word)) = hi"
    by (rule bit_word_eqI) (auto simp: bit_simps dest: bit_imp_le_length)
  show ?thesis unfolding le16_def using a b by simp
qed

lemma Int16Array_bytes:
  "Int16Array pcm = Some ws \<Longrightarrow> concat (map le16 ws) = pcm \<and> 2 * length ws = length pcm"
proof (induction pcm arbitrary: ws rule: Int16Array.induct)
  case 1
  then show ?case by simp
next
  case (2 b)
  then show ?case by simp
next
  case (3 lo hi rest)
  then show ?case by (auto simp: le16_join split: option.splits)
qed

lemma Int16Array_even:
  "length pcm = 2 * k \<Longrightarrow> \<exists>ws. Int16Array pcm = Some ws"
proof (induction pcm arbitrary: k rule: Int16Array.induct)
  case 1
  then show ?case by simp
next
  case (2 b)
  then show ?case by simp
next
  case (3 lo hi rest)
  then have "length rest = 2 * (k - 1)" by simp
  from 3(1) [OF this] show ?case by auto
qed

lemma write_pcm_eq:
  "off + 2 * length ss \<le> length v \<Longrightarrow>
   write_pcm v off ss = Some (store_bytes v off (concat (map le16 ss)))"
proof (induction ss arbitrary: v off)
  case Nil
  then show ?case by simp
next
  case (Cons s ss)
  then show ?case
    by (simp add: setInt16_def store_bytes_append length_store_bytes)
qed

lemma nth_concat_le16:
  "i < length ws \<Longrightarrow> concat (map le16 ws) ! (2 * i) = le16 (ws ! i) ! 0
     \<and> concat (map le16 ws) ! (2 * i + 1) = le16 (ws ! i) ! 1"
proof (induction ws arbitrary: i)
  case Nil
  then show ?case by simp
next
  case (Cons w ws)
  show ?case
  proof (cases i)
    case 0
    then show ?thesis by (simp add: le16_def)
  next
    case (Suc j)
    with Cons.prems have "j < length ws" by simp
    from Cons.IH [OF this] Suc show ?thesis by (simp add: le16_def)
  qed
qed

lemma length_concat_le16: "length (concat (map le16 ws)) = 2 * length ws"
  by (induction ws) auto


lemma bytes_at_store':
  assumes "off + length bs \<le> length v" "n = length bs"
  shows "bytes_at (store_bytes v off bs) off n = bs"
  using assms bytes_at_store by simp

lemma unat_of_nat32: "unat (of_nat n :: 32 word) = n mod 4294967296"
  by (simp add: unat_of_nat)

lemma unat_of_nat16: "unat (of_nat n :: 16 word) = n mod 65536"
  by (simp add: unat_of_nat)

lemma pcmToWav_fields:
  assumes len: "length pcm = 2 * k"
  shows "\<exists>out ws. pcmToWav pcm r = Some out \<and> Int16Array pcm = Some ws \<and> length ws = k
     \<and> length out = 44 + 2 * k
     \<and> bytes_at out 0 4 = map of_nat str_RIFF
     \<and> getUint32 out 4 = (36 + 2 * k) mod 4294967296
     \<and> bytes_at out 8 4 = map of_nat str_WAVE
     \<and> bytes_at out 12 4 = map of_nat str_fmt
     \<and> getUint32 out 16 = 16
     \<and> getUint16 out 20 = 1
     \<and> getUint16 out 22 = 1
     \<and> getUint32 out 24 = r mod 4294967296
     \<and> getUint32 out 28 = (r * 2) mod 4294967296
     \<and> getUint16 out 32 = 2
     \<and> getUint16 out 34 = 16
     \<and> bytes_at out 36 4 = map of_nat str_data
     \<and> getUint32 out 40 = (2 * k) mod 4294967296
     \<and> drop 44 out = pcm
     \<and> (\<forall>i<k. getInt16 out (44 + 2 * i) = sint (ws ! i))"
proof -
  obtain ws where ws: "Int16Array pcm = Some ws"
    using Int16Array_even [OF len] by blast
  from Int16Array_bytes [OF ws] len have cat: "concat (map le16 ws) = pcm" and lw: "length ws = k"
    by simp_all
  define v0 where "v0 = replicate (44 + k * 2) (0::byte)"
  have l0: "length v0 = 44 + 2 * k" by (simp add: v0_def)
  then have l0': "44 \<le> length v0" by simp
  define h1 where "h1 = store_bytes v0 0 (map of_nat str_RIFF)"
  define csz where "csz = 44 + k * 2 - 8"
  define h2 where "h2 = store_bytes h1 4 (le32 (of_nat csz))"
  define h3 where "h3 = store_bytes h2 8 (map of_nat str_WAVE)"
  define h4 where "h4 = store_bytes h3 12 (map of_nat str_fmt)"
  define h5 where "h5 = store_bytes h4 16 (le32 (of_nat 16))"
  define h6 where "h6 = store_bytes h5 20 (le16 (of_nat 1))"
  define h7 where "h7 = store_bytes h6 22 (le16 (of_nat 1))"
  define h8 where "h8 = store_bytes h7 24 (le32 (of_nat r))"
  define br where "br = r * 2"
  define h9 where "h9 = store_bytes h8 28 (le32 (of_nat br))"
  define h10 where "h10 = store_bytes h9 32 (le16 (of_nat 2))"
  define h11 where "h11 = store_bytes h10 34 (le16 (of_nat 16))"
  define h12 where "h12 = store_bytes h11 36 (map of_nat str_data)"
  define dsz where "dsz = k * 2"
  define h13 where "h13 = store_bytes h12 40 (le32 (of_nat dsz))"
  define out where "out = store_bytes h13 44 pcm"
  note hs = h1_def h2_def h3_def h4_def h5_def h6_def h7_def h8_def h9_def h10_def h11_def
    h12_def h13_def
  have ls: "length h1 = 44 + 2 * k" "length h2 = 44 + 2 * k" "length h3 = 44 + 2 * k"
    "length h4 = 44 + 2 * k" "length h5 = 44 + 2 * k" "length h6 = 44 + 2 * k"
    "length h7 = 44 + 2 * k" "length h8 = 44 + 2 * k" "length h9 = 44 + 2 * k"
    "length h10 = 44 + 2 * k" "length h11 = 44 + 2 * k" "length h12 = 44 + 2 * k"
    "length h13 = 44 + 2 * k" "length out = 44 + 2 * k"
    by (simp_all add: hs out_def length_store_bytes l0)
  have hdr: "wav_header v0 (44 + k * 2) 1 1 r (r * 2) 2 16 (k * 2) = Some h13"
    unfolding hs csz_def br_def dsz_def by (simp add: wav_header_eq [OF l0'])
  have res: "pcmToWav pcm r = Some out"
    using hdr write_pcm_eq [of 44 ws h13]
    by (simp add: pcmToWav_def ws Let_def lw cat ls out_def v0_def)
  have riff: "bytes_at out 0 4 = map of_nat str_RIFF"
    unfolding out_def hs
    by (simp add: bytes_at_frame bytes_at_store' length_store_bytes l0 len length_strs)
  have wave: "bytes_at out 8 4 = map of_nat str_WAVE"
    unfolding out_def h13_def h12_def h11_def h10_def h9_def h8_def h7_def h6_def h5_def h4_def h3_def
    by (simp add: bytes_at_frame bytes_at_store' length_store_bytes ls len length_strs)
  have fmt: "bytes_at out 12 4 = map of_nat str_fmt"
    unfolding out_def h13_def h12_def h11_def h10_def h9_def h8_def h7_def h6_def h5_def h4_def
    by (simp add: bytes_at_frame bytes_at_store' length_store_bytes ls len length_strs)
  have data: "bytes_at out 36 4 = map of_nat str_data"
    unfolding out_def h13_def h12_def
    by (simp add: bytes_at_frame bytes_at_store' length_store_bytes ls len length_strs)
  have "getUint32 out 4 = csz mod 4294967296"
    unfolding out_def h13_def h12_def h11_def h10_def h9_def h8_def h7_def h6_def h5_def h4_def
      h3_def h2_def
    by (simp add: getUint32_frame getUint32_store length_store_bytes ls len length_strs
        unat_of_nat32)
  moreover have "csz = 36 + 2 * k" by (simp add: csz_def)
  ultimately have chunk: "getUint32 out 4 = (36 + 2 * k) mod 4294967296" by simp
  have sub1: "getUint32 out 16 = 16"
    unfolding out_def h13_def h12_def h11_def h10_def h9_def h8_def h7_def h6_def h5_def
    by (simp add: getUint32_frame getUint32_store getUint16_frame length_store_bytes ls len length_strs)
  have fmtc: "getUint16 out 20 = 1"
    unfolding out_def h13_def h12_def h11_def h10_def h9_def h8_def h7_def h6_def
    by (simp add: getUint16_frame getUint16_store length_store_bytes ls len length_strs)
  have nch: "getUint16 out 22 = 1"
    unfolding out_def h13_def h12_def h11_def h10_def h9_def h8_def h7_def
    by (simp add: getUint16_frame getUint16_store length_store_bytes ls len length_strs)
  have rate: "getUint32 out 24 = r mod 4294967296"
    unfolding out_def h13_def h12_def h11_def h10_def h9_def h8_def
    by (simp add: getUint32_frame getUint32_store length_store_bytes ls len length_strs unat_of_nat32)
  have brate: "getUint32 out 28 = br mod 4294967296"
    unfolding out_def h13_def h12_def h11_def h10_def h9_def
    by (simp add: getUint32_frame getUint32_store length_store_bytes ls len length_strs unat_of_nat32)
  have align: "getUint16 out 32 = 2"
    unfolding out_def h13_def h12_def h11_def h10_def
    by (simp add: getUint16_frame getUint16_store length_store_bytes ls len length_strs)
  have bits: "getUint16 out 34 = 16"
    unfolding out_def h13_def h12_def h11_def
    by (simp add: getUint16_frame getUint16_store length_store_bytes ls len length_strs)
  have sub2: "getUint32 out 40 = dsz mod 4294967296"
    unfolding out_def h13_def
    by (simp add: getUint32_frame getUint32_store length_store_bytes ls len length_strs
        unat_of_nat32)
  have body: "drop 44 out = pcm"
    unfolding out_def by (simp add: store_bytes_take_drop ls len)
  have samples: "\<forall>i<k. getInt16 out (44 + 2 * i) = sint (ws ! i)"
  proof (intro allI impI)
    fix i assume i: "i < k"
    then have "i < length ws" by (simp add: lw)
    from nth_concat_le16 [OF this] cat
    have b: "pcm ! (2 * i) = le16 (ws ! i) ! 0" "pcm ! (2 * i + 1) = le16 (ws ! i) ! 1"
      by simp_all
    have "getUint16 out (44 + 2 * i) = unat (ws ! i)"
      unfolding out_def getUint16_def using i b unat_le16 [of "ws ! i"]
      by (simp add: nth_store_bytes ls len)
    then show "getInt16 out (44 + 2 * i) = sint (ws ! i)"
      by (simp add: getInt16_def)
  qed
  have sub2': "getUint32 out 40 = (2 * k) mod 4294967296"
    using sub2 by (simp add: dsz_def ac_simps)
  have brate': "getUint32 out 28 = (r * 2) mod 4294967296"
    using brate by (simp add: br_def)
  from res ws lw ls(14) riff chunk wave fmt sub1 fmtc nch rate brate' align bits data sub2' body samples
  show ?thesis by blast
qed

text \<open>
  C9 (as the code has it). Encoding \<open>k\<close> mono PCM16 samples (\<open>2k\<close> bytes) at sample
  rate \<open>r\<close> yields exactly \<open>44 + 2k\<close> bytes. Offsets 0, 8, 12 and 36 spell RIFF, WAVE,
  fmt and data; Subchunk1Size is 16, AudioFormat 1, NumChannels 1, BlockAlign 2 and
  BitsPerSample 16. The four size and rate fields are 32 bits wide and hold their value
  modulo \<open>2^32\<close>: ChunkSize is \<open>36 + 2k\<close>, SampleRate \<open>r\<close>, ByteRate \<open>2r\<close> and
  Subchunk2Size \<open>2k\<close> whenever \<open>2r < 2^32\<close> and \<open>36 + 2k < 2^32\<close>. The samples follow
  unchanged from offset 44.
\<close>

theorem C9_pcmToWav_header:
  "length pcmData = 2 * k \<Longrightarrow>
   \<exists>out pcm16.
       pcmToWav pcmData r = Some out \<and> Int16Array pcmData = Some pcm16 \<and> length pcm16 = k
     \<and> length out = 44 + 2 * k
     \<and> bytes_at out 0 4 = map of_nat str_RIFF
     \<and> bytes_at out 8 4 = map of_nat str_WAVE
     \<and> bytes_at out 12 4 = map of_nat str_fmt
     \<and> bytes_at out 36 4 = map of_nat str_data
     \<and> getUint32 out 4 = (36 + 2 * k) mod 2 ^ 32
     \<and> getUint32 out 16 = 16
     \<and> getUint16 out 20 = 1
     \<and> getUint16 out 22 = 1
     \<and> getUint32 out 24 = r mod 2 ^ 32
     \<and> getUint32 out 28 = (r * 2) mod 2 ^ 32
     \<and> getUint16 out 32 = 2
     \<and> getUint16 out 34 = 16
     \<and> getUint32 out 40 = (2 * k) mod 2 ^ 32
     \<and> (36 + 2 * k < 2 ^ 32 \<longrightarrow> getUint32 out 4 = 36 + 2 * k \<and> getUint32 out 40 = 2 * k)
     \<and> (r * 2 < 2 ^ 32 \<longrightarrow> getUint32 out 24 = r \<and> getUint32 out 28 = r * 2)
     \<and> drop 44 out = pcmData
     \<and> (\<forall>i<k. getInt16 out (44 + 2 * i) = sint (pcm16 ! i))"
proof -
  assume len: "length pcmData = 2 * k"
  from pcmToWav_fields [OF len, of r] obtain out ws where
    f: "pcmToWav pcmData r = Some out" "Int16Array pcmData = Some ws" "length ws = k"
      "length out = 44 + 2 * k"
      "bytes_at out 0 4 = map of_nat str_RIFF"
      "getUint32 out 4 = (36 + 2 * k) mod 4294967296"
      "bytes_at out 8 4 = map of_nat str_WAVE"
      "bytes_at out 12 4 = map of_nat str_fmt"
      "getUint32 out 16 = 16" "getUint16 out 20 = 1" "getUint16 out 22 = 1"
      "getUint32 out 24 = r mod 4294967296"
      "getUint32 out 28 = (r * 2) mod 4294967296"
      "getUint16 out 32 = 2" "getUint16 out 34 = 16"
      "bytes_at out 36 4 = map of_nat str_data"
      "getUint32 out 40 = (2 * k) mod 4294967296"
      "drop 44 out = pcmData"
      "\<forall>i<k. getInt16 out (44 + 2 * i) = sint (ws ! i)"
    by blast
  have sz: "36 + 2 * k < 2 ^ 32 \<longrightarrow> getUint32 out 4 = 36 + 2 * k \<and> getUint32 out 40 = 2 * k"
    using f(6) f(17) by simp
  have rt: "r * 2 < 2 ^ 32 \<longrightarrow> getUint32 out 24 = r \<and> getUint32 out 28 = r * 2"
    using f(12) f(13) by simp
  have p: "(2::nat) ^ 32 = 4294967296" by simp
  show ?thesis
    unfolding p using f sz rt unfolding p by blast
qed

theorem C9_pcmToWav_header_witness:
  "length [0x34, 0x12 :: byte] = 2 * 1
   \<and> (\<exists>out. pcmToWav [0x34, 0x12] 24000 = Some out \<and> length out = 46
         \<and> getUint32 out 4 = 38 \<and> getUint32 out 24 = 24000 \<and> getUint32 out 28 = 48000
         \<and> getUint32 out 40 = 2 \<and> drop 44 out = [0x34, 0x12]
         \<and> getInt16 out 44 = 4660)"
proof -
  have l: "length [0x34, 0x12 :: byte] = 2 * 1" by simp
  have s: "Int16Array [0x34, 0x12] = Some [0x1234]" by simp
  from C9_pcmToWav_header [OF l, of 24000] s show ?thesis
    by (auto simp: l)
qed

text \<open>
  As stated, for every rate, the claim fails: at a sample rate of \<open>2^32\<close> the SampleRate
  and ByteRate fields read 0.
\<close>

theorem C9_counterexample:
  "pcmToWav [0x34, 0x12] 4294967296 \<noteq> None
   \<and> getUint32 (the (pcmToWav [0x34, 0x12] 4294967296)) 24 = 0
   \<and> getUint32 (the (pcmToWav [0x34, 0x12] 4294967296)) 24 \<noteq> 4294967296
   \<and> getUint32 (the (pcmToWav [0x34, 0x12] 4294967296)) 28 \<noteq> 4294967296 * 2"
proof -
  have l: "length [0x34, 0x12 :: byte] = 2 * 1" by simp
  from pcmToWav_fields [OF l, of 4294967296] show ?thesis
    by auto
qed

subsection \<open>The header of audioBufferToWavBlob\<close>

lemma wav_header_fields:
  assumes v: "44 \<le> length v"
  shows "\<exists>h. wav_header v ts f nc sr br ba bd ds = Some h \<and> length h = length v
     \<and> bytes_at h 0 4 = map of_nat str_RIFF
     \<and> getUint32 h 4 = (ts - 8) mod 4294967296
     \<and> bytes_at h 8 4 = map of_nat str_WAVE
     \<and> bytes_at h 12 4 = map of_nat str_fmt
     \<and> getUint32 h 16 = 16
     \<and> getUint16 h 20 = f mod 65536
     \<and> getUint16 h 22 = nc mod 65536
     \<and> getUint32 h 24 = sr mod 4294967296
     \<and> getUint32 h 28 = br mod 4294967296
     \<and> getUint16 h 32 = ba mod 65536
     \<and> getUint16 h 34 = bd mod 65536
     \<and> bytes_at h 36 4 = map of_nat str_data
     \<and> getUint32 h 40 = ds mod 4294967296"
proof -
  define csz where "csz = ts - 8"
  define h1 where "h1 = store_bytes v 0 (map of_nat str_RIFF)"
  define h2 where "h2 = store_bytes h1 4 (le32 (of_nat csz))"
  define h3 where "h3 = store_bytes h2 8 (map of_nat str_WAVE)"
  define h4 where "h4 = store_bytes h3 12 (map of_nat str_fmt)"
  define h5 where "h5 = store_bytes h4 16 (le32 (of_nat 16))"
  define h6 where "h6 = store_bytes h5 20 (le16 (of_nat f))"
  define h7 where "h7 = store_bytes h6 22 (le16 (of_nat nc))"
  define h8 where "h8 = store_bytes h7 24 (le32 (of_nat sr))"
  define h9 where "h9 = store_bytes h8 28 (le32 (of_nat br))"
  define h10 where "h10 = store_bytes h9 32 (le16 (of_nat ba))"
  define h11 where "h11 = store_bytes h10 34 (le16 (of_nat bd))"
  define h12 where "h12 = store_bytes h11 36 (map of_nat str_data)"
  define h13 where "h13 = store_bytes h12 40 (le32 (of_nat ds))"
  note hs = h1_def h2_def h3_def h4_def h5_def h6_def h7_def h8_def h9_def h10_def h11_def
    h12_def h13_def
  have ls: "length h1 = length v" "length h2 = length v" "length h3 = length v"
    "length h4 = length v" "length h5 = length v" "length h6 = length v"
    "length h7 = length v" "length h8 = length v" "length h9 = length v"
    "length h10 = length v" "length h11 = length v" "length h12 = length v"
    "length h13 = length v"
    by (simp_all add: hs length_store_bytes)
  have hdr: "wav_header v ts f nc sr br ba bd ds = Some h13"
    unfolding hs csz_def by (simp add: wav_header_eq [OF v])
  have riff: "bytes_at h13 0 4 = map of_nat str_RIFF"
    unfolding hs
    using v by (simp add: bytes_at_frame bytes_at_store' length_store_bytes length_strs)
  have wave: "bytes_at h13 8 4 = map of_nat str_WAVE"
    unfolding h13_def h12_def h11_def h10_def h9_def h8_def h7_def h6_def h5_def h4_def h3_def
    using v by (simp add: bytes_at_frame bytes_at_store' length_store_bytes ls length_strs)
  have fmt: "bytes_at h13 12 4 = map of_nat str_fmt"
    unfolding h13_def h12_def h11_def h10_def h9_def h8_def h7_def h6_def h5_def h4_def
    using v by (simp add: bytes_at_frame bytes_at_store' length_store_bytes ls length_strs)
  have data: "bytes_at h13 36 4 = map of_nat str_data"
    unfolding h13_def h12_def
    using v by (simp add: bytes_at_frame bytes_at_store' length_store_bytes ls length_strs)
  have chunk: "getUint32 h13 4 = csz mod 4294967296"
    unfolding h13_def h12_def h11_def h10_def h9_def h8_def h7_def h6_def h5_def h4_def
      h3_def h2_def
    using v by (simp add: getUint32_frame getUint32_store length_store_bytes ls length_strs
        unat_of_nat32)
  have sub1: "getUint32 h13 16 = 16"
    unfolding h13_def h12_def h11_def h10_def h9_def h8_def h7_def h6_def h5_def
    using v by (simp add: getUint32_frame getUint32_store length_store_bytes ls length_strs)
  have fmtc: "getUint16 h13 20 = f mod 65536"
    unfolding h13_def h12_def h11_def h10_def h9_def h8_def h7_def h6_def
    using v by (simp add: getUint16_frame getUint16_store length_store_bytes ls length_strs
        unat_of_nat16)
  have nch: "getUint16 h13 22 = nc mod 65536"
    unfolding h13_def h12_def h11_def h10_def h9_def h8_def h7_def
    using v by (simp add: getUint16_frame getUint16_store length_store_bytes ls length_strs
        unat_of_nat16)
  have rate: "getUint32 h13 24 = sr mod 4294967296"
    unfolding h13_def h12_def h11_def h10_def h9_def h8_def
    using v by (simp add: getUint32_frame getUint32_store length_store_bytes ls length_strs
        unat_of_nat32)
  have brate: "getUint32 h13 28 = br mod 4294967296"
    unfolding h13_def h12_def h11_def h10_def h9_def
    using v by (simp add: getUint32_frame getUint32_store length_store_bytes ls length_strs
        unat_of_nat32)
  have align: "getUint16 h13 32 = ba mod 65536"
    unfolding h13_def h12_def h11_def h10_def
    using v by (simp add: getUint16_frame getUint16_store length_store_bytes ls length_strs
        unat_of_nat16)
  have bits: "getUint16 h13 34 = bd mod 65536"
    unfolding h13_def h12_def h11_def
    using v by (simp add: getUint16_frame getUint16_store length_store_bytes ls length_strs
        unat_of_nat16)
  have sub2: "getUint32 h13 40 = ds mod 4294967296"
    unfolding h13_def
    using v by (simp add: getUint32_frame getUint32_store length_store_bytes ls length_strs
        unat_of_nat32)
  from hdr ls(13) riff chunk wave fmt sub1 fmtc nch rate brate align bits data sub2
  show ?thesis unfolding csz_def by blast
qed

text \<open>A sample written at or after offset 44 leaves the header as it is.\<close>

lemma setInt16_frame:
  assumes "setInt16 v off x = Some v'" "44 \<le> off"
  shows "length v' = length v \<and> take 44 v' = take 44 v"
  using assms
  by (auto simp: setInt16_def length_store_bytes store_bytes_take_drop split: if_splits)

lemma write_mono_frame:
  "write_mono v off xs = Some v' \<Longrightarrow> 44 \<le> off \<Longrightarrow> length v' = length v \<and> take 44 v' = take 44 v"
proof (induction xs arbitrary: v off)
  case Nil
  then show ?case by simp
next
  case (Cons x xs)
  from Cons.prems(1) obtain v1 where
    s: "setInt16 v off (float_to_pcm16 x) = Some v1" and r: "write_mono v1 (off + 2) xs = Some v'"
    by (auto split: option.splits)
  from setInt16_frame [OF s Cons.prems(2)] Cons.IH [OF r] Cons.prems(2) show ?case by simp
qed

lemma write_frame_frame:
  "write_frame v chans n i cs = Some v' \<Longrightarrow> length v' = length v \<and> take 44 v' = take 44 v"
proof (induction cs arbitrary: v)
  case Nil
  then show ?case by simp
next
  case (Cons c cs)
  define x where "x = (case at_index (chans ! c) i of None \<Rightarrow> 0 | Some y \<Rightarrow> float_to_pcm16 y)"
  from Cons.prems obtain v1 where
    s: "setInt16 v (44 + (i * n + c) * 2) x = Some v1" and r: "write_frame v1 chans n i cs = Some v'"
    by (auto simp: Let_def x_def split: option.splits)
  from setInt16_frame [OF s] Cons.IH [OF r] show ?case by simp
qed

lemma write_frames_frame:
  "write_frames v chans n is = Some v' \<Longrightarrow> length v' = length v \<and> take 44 v' = take 44 v"
proof (induction "is" arbitrary: v)
  case Nil
  then show ?case by simp
next
  case (Cons i "is")
  from Cons.prems obtain v1 where
    s: "write_frame v chans n i [0..<n] = Some v1" and r: "write_frames v1 chans n is = Some v'"
    by (auto split: option.splits)
  from write_frame_frame [OF s] Cons.IH [OF r] show ?case by simp
qed

lemma getUint32_header: "off + 4 \<le> 44 \<Longrightarrow> getUint32 (take 44 v) off = getUint32 v off"
  by (simp add: getUint32_def)

lemma getUint16_header: "off + 2 \<le> 44 \<Longrightarrow> getUint16 (take 44 v) off = getUint16 v off"
  by (simp add: getUint16_def)

lemma bytes_at_header: "off + n \<le> 44 \<Longrightarrow> bytes_at (take 44 v) off n = bytes_at v off n"
  by (simp add: bytes_at_def drop_take min_def)

text \<open>
  Whenever \<open>audioBufferToWavBlob\<close> returns, the result has \<open>44 + length * blockAlign\<close>
  bytes and the header of a 16-bit PCM file with the channel count and the sample rate
  of the buffer, each field reduced to its width.
\<close>

lemma audioBufferToWavBlob_header:
  assumes "audioBufferToWavBlob b = Some out"
  shows "length out = 44 + length_frames b * (numberOfChannels b * 2)
     \<and> bytes_at out 0 4 = map of_nat str_RIFF
     \<and> getUint32 out 4 = (36 + length_frames b * (numberOfChannels b * 2)) mod 2 ^ 32
     \<and> bytes_at out 8 4 = map of_nat str_WAVE
     \<and> bytes_at out 12 4 = map of_nat str_fmt
     \<and> getUint32 out 16 = 16
     \<and> getUint16 out 20 = 1
     \<and> getUint16 out 22 = numberOfChannels b mod 2 ^ 16
     \<and> getUint32 out 24 = sampleRate b mod 2 ^ 32
     \<and> getUint32 out 28 = (sampleRate b * (numberOfChannels b * 2)) mod 2 ^ 32
     \<and> getUint16 out 32 = (numberOfChannels b * 2) mod 2 ^ 16
     \<and> getUint16 out 34 = 16
     \<and> bytes_at out 36 4 = map of_nat str_data
     \<and> getUint32 out 40 = (length_frames b * (numberOfChannels b * 2)) mod 2 ^ 32"
proof -
  define nc where "nc = numberOfChannels b"
  define ba where "ba = nc * 2"
  define ds where "ds = length_frames b * ba"
  define ts where "ts = 44 + ds"
  define br where "br = sampleRate b * ba"
  define v0 where "v0 = replicate ts (0::byte)"
  have l0: "44 \<le> length v0" by (simp add: v0_def ts_def)
  from wav_header_fields [OF l0, of ts 1 nc "sampleRate b" br ba 16 ds] obtain h where
    h: "wav_header v0 ts 1 nc (sampleRate b) br ba 16 ds = Some h" "length h = length v0"
      "bytes_at h 0 4 = map of_nat str_RIFF"
      "getUint32 h 4 = (ts - 8) mod 4294967296"
      "bytes_at h 8 4 = map of_nat str_WAVE"
      "bytes_at h 12 4 = map of_nat str_fmt"
      "getUint32 h 16 = 16"
      "getUint16 h 20 = 1 mod 65536"
      "getUint16 h 22 = nc mod 65536"
      "getUint32 h 24 = sampleRate b mod 4294967296"
      "getUint32 h 28 = br mod 4294967296"
      "getUint16 h 32 = ba mod 65536"
      "getUint16 h 34 = 16 mod 65536"
      "bytes_at h 36 4 = map of_nat str_data"
      "getUint32 h 40 = ds mod 4294967296"
    by blast
  have body: "(if nc = 1 then write_mono h 44 (channels b ! 0)
               else write_frames h (channels b) nc [0..<length_frames b]) = Some out"
    using assms h(1)
    by (simp add: audioBufferToWavBlob_def Let_def nc_def ba_def ds_def ts_def br_def v0_def
        split: if_splits)
  have fr: "length out = length h \<and> take 44 out = take 44 h"
  proof (cases "nc = 1")
    case True
    with body have "write_mono h 44 (channels b ! 0) = Some out" by simp
    from write_mono_frame [OF this] show ?thesis by simp
  next
    case False
    with body have "write_frames h (channels b) nc [0..<length_frames b] = Some out" by simp
    from write_frames_frame [OF this] show ?thesis .
  qed
  then have t: "take 44 out = take 44 h" and lo: "length out = ts"
    by (simp_all add: h(2) v0_def)
  have g32: "\<And>off. off + 4 \<le> 44 \<Longrightarrow> getUint32 out off = getUint32 h off"
    using getUint32_header [of _ out] getUint32_header [of _ h] t by simp
  have g16: "\<And>off. off + 2 \<le> 44 \<Longrightarrow> getUint16 out off = getUint16 h off"
    using getUint16_header [of _ out] getUint16_header [of _ h] t by simp
  have ba4: "\<And>off. off + 4 \<le> 44 \<Longrightarrow> bytes_at out off 4 = bytes_at h off 4"
    using bytes_at_header [of _ 4 out] bytes_at_header [of _ 4 h] t by simp
  have p: "(2::nat) ^ 32 = 4294967296" "(2::nat) ^ 16 = 65536" by simp_all
  have c: "ts - 8 = 36 + ds" by (simp add: ts_def)
  show ?thesis
    unfolding p nc_def [symmetric] ba_def [symmetric] ds_def [symmetric] br_def [symmetric]
    using h(3-15) lo c by (simp add: g32 g16 ba4 ts_def)
qed

text \<open>
  It returns for every buffer whose channel arrays have the length of the buffer, as
  the host keeps them.
\<close>

lemma write_mono_ok:
  "off + 2 * length xs \<le> length v \<Longrightarrow> \<exists>v'. write_mono v off xs = Some v'"
proof (induction xs arbitrary: v off)
  case Nil
  then show ?case by simp
next
  case (Cons x xs)
  then show ?case by (simp add: setInt16_def length_store_bytes)
qed

lemma write_frame_ok:
  assumes "44 + (i * n + n) * 2 \<le> length v" "\<forall>c\<in>set cs. c < n"
  shows "\<exists>v'. write_frame v chans n i cs = Some v'"
  using assms
proof (induction cs arbitrary: v)
  case Nil
  then show ?case by simp
next
  case (Cons c cs)
  then show ?case by (simp add: setInt16_def length_store_bytes Let_def)
qed

lemma write_frames_ok:
  assumes "44 + L * n * 2 \<le> length v" "\<forall>i\<in>set is. i < L"
  shows "\<exists>v'. write_frames v chans n is = Some v'"
  using assms
proof (induction "is" arbitrary: v)
  case Nil
  then show ?case by simp
next
  case (Cons i "is")
  from Cons.prems(2) have "i < L" by simp
  then have "Suc i \<le> L" by simp
  then have "Suc i * n \<le> L * n" by (rule mult_le_mono1)
  with Cons.prems(1) have le: "44 + (i * n + n) * 2 \<le> length v" by simp
  from write_frame_ok [OF le, of "[0..<n]" chans] obtain v1 where
    s: "write_frame v chans n i [0..<n] = Some v1" by auto
  from write_frame_frame [OF s] Cons.prems have "44 + L * n * 2 \<le> length v1" "\<forall>i\<in>set is. i < L"
    by simp_all
  from Cons.IH [OF this] s show ?case by simp
qed

lemma audioBufferToWavBlob_returns:
  assumes "wf_buffer b"
  shows "\<exists>out. audioBufferToWavBlob b = Some out"
proof -
  define nc where "nc = numberOfChannels b"
  define ts where "ts = 44 + length_frames b * (nc * 2)"
  define v0 where "v0 = replicate ts (0::byte)"
  have l0: "44 \<le> length v0" by (simp add: v0_def ts_def)
  from wav_header_fields [OF l0, of ts 1 nc "sampleRate b" "sampleRate b * (nc * 2)" "nc * 2" 16
      "length_frames b * (nc * 2)"]
  obtain h where
    h: "wav_header v0 ts 1 nc (sampleRate b) (sampleRate b * (nc * 2)) (nc * 2) 16
          (length_frames b * (nc * 2)) = Some h" "length h = length v0"
    by blast
  have lh: "length h = 44 + length_frames b * (nc * 2)" by (simp add: h(2) v0_def ts_def)
  have "\<exists>out. (if nc = 1 then write_mono h 44 (channels b ! 0)
               else write_frames h (channels b) nc [0..<length_frames b]) = Some out"
  proof (cases "nc = 1")
    case True
    then have "length (channels b ! 0) = length_frames b"
      using assms by (simp add: wf_buffer_def nc_def numberOfChannels_def list_all_length)
    with True lh have "44 + 2 * length (channels b ! 0) \<le> length h" by simp
    from write_mono_ok [OF this] True show ?thesis by simp
  next
    case False
    have "44 + length_frames b * nc * 2 \<le> length h" by (simp add: lh)
    from write_frames_ok [OF this, of "[0..<length_frames b]" "channels b"] False
    show ?thesis by simp
  qed
  with h(1) show ?thesis
    by (simp add: audioBufferToWavBlob_def Let_def nc_def ts_def v0_def split: if_splits)
qed


section \<open>Properties of buffer concatenation\<close>

lemma foldl_length_frames:
  "foldl (\<lambda>acc buf. acc + length_frames buf) a buffers = a + sum_list (map length_frames buffers)"
  by (induction buffers arbitrary: a) auto

lemma copy_channel_ok:
  assumes "\<forall>b \<in> set bs. wf_buffer b \<and> i < numberOfChannels b"
    and "offset + sum_list (map length_frames bs) \<le> length cd"
  shows "copy_channel cd i offset bs =
           Inr (take offset cd @ concat (map (\<lambda>b. channels b ! i) bs)
                @ drop (offset + sum_list (map length_frames bs)) cd)"
  using assms
proof (induction bs arbitrary: cd offset)
  case Nil
  then show ?case by simp
next
  case (Cons b bs)
  from Cons.prems(1) have ib: "i < numberOfChannels b" and wb: "wf_buffer b" by simp_all
  then have lb: "length (channels b ! i) = length_frames b"
    by (simp add: wf_buffer_def numberOfChannels_def list_all_length)
  define cd' where "cd' = take offset cd @ channels b ! i @ drop (offset + length_frames b) cd"
  have fit: "offset + length_frames b \<le> length cd" using Cons.prems(2) by simp
  have step: "typed_array_set cd (channels b ! i) offset = Inr cd'"
    using fit by (simp add: typed_array_set_def lb cd'_def)
  have lcd': "length cd' = length cd" using fit by (simp add: cd'_def lb)
  have rest: "copy_channel cd' i (offset + length_frames b) bs =
      Inr (take (offset + length_frames b) cd' @ concat (map (\<lambda>b. channels b ! i) bs)
           @ drop (offset + length_frames b + sum_list (map length_frames bs)) cd')"
    using Cons.prems by (intro Cons.IH) (auto simp: lcd')
  have t: "take (offset + length_frames b) cd' = take offset cd @ channels b ! i"
    using fit by (simp add: cd'_def lb)
  have d: "drop (offset + length_frames b + sum_list (map length_frames bs)) cd'
      = drop (offset + length_frames b + sum_list (map length_frames bs)) cd"
    using fit by (simp add: cd'_def lb ac_simps)
  have rest': "copy_channel cd' i (offset + length_frames b) bs =
      Inr (take offset cd @ channels b ! i @ concat (map (\<lambda>b. channels b ! i) bs)
           @ drop (offset + length_frames b + sum_list (map length_frames bs)) cd)"
    using rest unfolding t d by simp
  show ?case
    using ib step rest' by (simp add: getChannelData_def add.assoc)
qed

lemma concat_channels_other:
  "concat_channels result is bs = Inr res \<Longrightarrow> j \<notin> set is \<Longrightarrow>
     channels res ! j = channels result ! j"
proof (induction "is" arbitrary: result)
  case Nil
  then show ?case by simp
next
  case (Cons i "is")
  then show ?case
    by (fastforce split: sum.splits)
qed

lemma concat_channels_frame:
  "concat_channels result is bs = Inr res \<Longrightarrow>
     sampleRate res = sampleRate result \<and> length_frames res = length_frames result
     \<and> numberOfChannels res = numberOfChannels result"
proof (induction "is" arbitrary: result)
  case Nil
  then show ?case by simp
next
  case (Cons i "is")
  then show ?case
    by (fastforce simp: numberOfChannels_def split: sum.splits)
qed


lemma concat_channels_ok:
  assumes "wf_buffer result"
    and "length_frames result = sum_list (map length_frames bs)"
    and "\<forall>i \<in> set is. i < numberOfChannels result"
    and "\<forall>b \<in> set bs. wf_buffer b \<and> (\<forall>i \<in> set is. i < numberOfChannels b)"
  shows "\<exists>res. concat_channels result is bs = Inr res \<and> wf_buffer res
     \<and> (\<forall>i \<in> set is. channels res ! i = concat (map (\<lambda>b. channels b ! i) bs))"
  using assms
proof (induction "is" arbitrary: result)
  case Nil
  then show ?case by simp
next
  case (Cons i "is")
  from Cons.prems(3) have ir: "i < numberOfChannels result" by simp
  then have lc: "length (channels result ! i) = sum_list (map length_frames bs)"
    using Cons.prems(1,2) by (simp add: wf_buffer_def numberOfChannels_def list_all_length)
  have bs: "\<forall>b \<in> set bs. wf_buffer b \<and> i < numberOfChannels b"
    using Cons.prems(4) by simp
  have cp: "copy_channel (channels result ! i) i 0 bs = Inr (concat (map (\<lambda>b. channels b ! i) bs))"
    using copy_channel_ok [OF bs, of 0 "channels result ! i"] lc by simp
  have lcat: "length (concat (map (\<lambda>b. channels b ! i) bs)) = sum_list (map length_frames bs)"
    using bs by (induction bs) (auto simp: wf_buffer_def numberOfChannels_def list_all_length)
  define result' where
    "result' = result\<lparr>channels := (channels result)[i := concat (map (\<lambda>b. channels b ! i) bs)]\<rparr>"
  have wf': "wf_buffer result'"
    using Cons.prems(1,2) lcat ir
    by (auto simp: result'_def wf_buffer_def numberOfChannels_def list_all_length nth_list_update)
  have n': "numberOfChannels result' = numberOfChannels result"
    by (simp add: result'_def numberOfChannels_def)
  have "\<exists>res. concat_channels result' is bs = Inr res \<and> wf_buffer res
     \<and> (\<forall>j \<in> set is. channels res ! j = concat (map (\<lambda>b. channels b ! j) bs))"
    using Cons.prems wf' by (intro Cons.IH) (auto simp: n', simp add: result'_def)
  then obtain res where res: "concat_channels result' is bs = Inr res" "wf_buffer res"
    "\<forall>j \<in> set is. channels res ! j = concat (map (\<lambda>b. channels b ! j) bs)"
    by blast
  have step: "concat_channels result (i # is) bs = Inr res"
    using ir cp res(1) by (simp add: getChannelData_def result'_def)
  have "channels res ! i = concat (map (\<lambda>b. channels b ! i) bs)"
  proof (cases "i \<in> set is")
    case True
    with res(3) show ?thesis by blast
  next
    case False
    from concat_channels_other [OF res(1) False] ir show ?thesis
      by (simp add: result'_def numberOfChannels_def)
  qed
  with step res show ?case by auto
qed


lemma concat_empty:
  "concatenateAudioBuffers [] = Inr \<lparr>sampleRate = 24000, length_frames = 1, channels = [[0]]\<rparr>"
  by (simp add: concatenateAudioBuffers_def createBuffer_def)

lemma concat_shape:
  assumes "concatenateAudioBuffers (first # rest) = Inr res"
  shows "numberOfChannels res = numberOfChannels first \<and> sampleRate res = sampleRate first
     \<and> length_frames res = sum_list (map length_frames (first # rest))"
proof -
  let ?n = "sum_list (map length_frames (first # rest))"
  from assms obtain result where
    cb: "createBuffer (numberOfChannels first) ?n (sampleRate first) = Inr result"
    and cc: "concat_channels result [0..<numberOfChannels first] (first # rest) = Inr res"
    by (auto simp: concatenateAudioBuffers_def foldl_length_frames Let_def split: sum.splits)
  from cb have "sampleRate result = sampleRate first" "length_frames result = ?n"
    "numberOfChannels result = numberOfChannels first"
    by (auto simp: createBuffer_def numberOfChannels_def split: if_splits)
  with concat_channels_frame [OF cc] show ?thesis by simp
qed

lemma concat_total:
  assumes "wf_buffer first" "0 < numberOfChannels first" "0 < length_frames first"
    "0 < sampleRate first"
    "\<forall>b \<in> set rest. wf_buffer b \<and> numberOfChannels first \<le> numberOfChannels b"
  shows "\<exists>res. concatenateAudioBuffers (first # rest) = Inr res
     \<and> (\<forall>i<numberOfChannels first.
           channels res ! i = concat (map (\<lambda>b. channels b ! i) (first # rest)))"
proof -
  let ?n = "sum_list (map length_frames (first # rest))"
  define result where
    "result = \<lparr>sampleRate = sampleRate first, length_frames = ?n,
       channels = replicate (numberOfChannels first) (replicate ?n 0)\<rparr>"
  have cb: "createBuffer (numberOfChannels first) ?n (sampleRate first) = Inr result"
    using assms(2,3,4) by (simp add: createBuffer_def result_def)
  have wf: "wf_buffer result" by (simp add: result_def wf_buffer_def list_all_length)
  have n: "numberOfChannels result = numberOfChannels first"
    by (simp add: result_def numberOfChannels_def)
  have lf: "length_frames result = ?n" by (simp add: result_def)
  have "\<exists>res. concat_channels result [0..<numberOfChannels first] (first # rest) = Inr res
     \<and> wf_buffer res
     \<and> (\<forall>i \<in> set [0..<numberOfChannels first].
           channels res ! i = concat (map (\<lambda>b. channels b ! i) (first # rest)))"
    using assms(1,5) by (intro concat_channels_ok wf lf) (auto simp: n)
  then show ?thesis
    using cb by (auto simp: concatenateAudioBuffers_def foldl_length_frames Let_def)
qed

lemma concat_mismatch_example:
  "concatenateAudioBuffers
         [\<lparr>sampleRate = 24000, length_frames = 1, channels = [[1 / 2]]\<rparr>,
          \<lparr>sampleRate = 48000, length_frames = 2, channels = [[1 / 4, 3 / 4], [1, 1]]\<rparr>]
       = Inr \<lparr>sampleRate = 24000, length_frames = 3, channels = [[1 / 2, 1 / 4, 3 / 4]]\<rparr>"
  by (simp add: concatenateAudioBuffers_def createBuffer_def numberOfChannels_def
      getChannelData_def typed_array_set_def)

lemma concat_fewer_channels_example:
  "concatenateAudioBuffers
         [\<lparr>sampleRate = 24000, length_frames = 1, channels = [[1 / 2], [1 / 2]]\<rparr>,
          \<lparr>sampleRate = 24000, length_frames = 1, channels = [[1 / 4]]\<rparr>]
       = Inl IndexSizeError"
  by (simp add: concatenateAudioBuffers_def createBuffer_def numberOfChannels_def
      getChannelData_def typed_array_set_def upt_rec)

text \<open>
  C10. For the empty list the result is a one-channel buffer of exactly one sample at
  24000 Hz, so its length is not the sum (zero) of the input lengths. For a non-empty
  list the channel count and the sample rate of the result are those of the first buffer
  and its length is the sum of the lengths; the result is produced whatever the sample
  rates of the later buffers are and however many channels they have beyond those of the
  first, and holds in each channel the samples of the inputs in order.
\<close>

theorem C10_concatenateAudioBuffers:
  "concatenateAudioBuffers [] = Inr \<lparr>sampleRate = 24000, length_frames = 1, channels = [[0]]\<rparr>
   \<and> (\<forall>res. concatenateAudioBuffers [] = Inr res \<longrightarrow>
          numberOfChannels res = 1 \<and> length_frames res = 1 \<and> sampleRate res = 24000
        \<and> length_frames res \<noteq> sum_list (map length_frames []))
   \<and> (\<forall>first rest res. concatenateAudioBuffers (first # rest) = Inr res \<longrightarrow>
          numberOfChannels res = numberOfChannels first
        \<and> sampleRate res = sampleRate first
        \<and> length_frames res = sum_list (map length_frames (first # rest)))
   \<and> (\<forall>first rest.
          wf_buffer first \<and> 0 < numberOfChannels first \<and> 0 < length_frames first
        \<and> 0 < sampleRate first
        \<and> (\<forall>b \<in> set rest. wf_buffer b \<and> numberOfChannels first \<le> numberOfChannels b)
        \<longrightarrow> (\<exists>res. concatenateAudioBuffers (first # rest) = Inr res
               \<and> (\<forall>i<numberOfChannels first.
                     channels res ! i = concat (map (\<lambda>b. channels b ! i) (first # rest)))))"
proof (intro conjI allI impI)
  show "concatenateAudioBuffers [] = Inr \<lparr>sampleRate = 24000, length_frames = 1, channels = [[0]]\<rparr>"
    by (rule concat_empty)
next
  fix res assume "concatenateAudioBuffers [] = Inr res"
  then have r: "res = \<lparr>sampleRate = 24000, length_frames = 1, channels = [[0]]\<rparr>"
    by (simp add: concat_empty)
  show "numberOfChannels res = 1" by (simp add: r numberOfChannels_def)
  show "length_frames res = 1" by (simp add: r)
  show "sampleRate res = 24000" by (simp add: r)
  show "length_frames res \<noteq> sum_list (map length_frames [])" by (simp add: r)
next
  fix first rest res assume a: "concatenateAudioBuffers (first # rest) = Inr res"
  from concat_shape [OF a]
  show "numberOfChannels res = numberOfChannels first" "sampleRate res = sampleRate first"
    "length_frames res = sum_list (map length_frames (first # rest))"
    by simp_all
next
  fix first rest
  assume "wf_buffer first \<and> 0 < numberOfChannels first \<and> 0 < length_frames first
        \<and> 0 < sampleRate first
        \<and> (\<forall>b \<in> set rest. wf_buffer b \<and> numberOfChannels first \<le> numberOfChannels b)"
  then show "\<exists>res. concatenateAudioBuffers (first # rest) = Inr res
               \<and> (\<forall>i<numberOfChannels first.
                     channels res ! i = concat (map (\<lambda>b. channels b ! i) (first # rest)))"
    using concat_total [of first rest] by blast
qed

theorem C10_concatenateAudioBuffers_witness:
  "concatenateAudioBuffers
     [\<lparr>sampleRate = 24000, length_frames = 1, channels = [[1 / 2]]\<rparr>,
      \<lparr>sampleRate = 48000, length_frames = 2, channels = [[1 / 4, 3 / 4], [1, 1]]\<rparr>]
     = Inr \<lparr>sampleRate = 24000, length_frames = 3, channels = [[1 / 2, 1 / 4, 3 / 4]]\<rparr>
   \<and> numberOfChannels \<lparr>sampleRate = 24000, length_frames = 3, channels = [[1 / 2, 1 / 4, 3 / 4]]\<rparr>
       = numberOfChannels \<lparr>sampleRate = 24000, length_frames = 1, channels = [[1 / 2]]\<rparr>
   \<and> sampleRate \<lparr>sampleRate = 24000, length_frames = 3, channels = [[1 / 2, 1 / 4, 3 / 4]]\<rparr>
       = sampleRate \<lparr>sampleRate = 24000, length_frames = 1, channels = [[1 / 2]]\<rparr>
   \<and> length_frames \<lparr>sampleRate = 24000, length_frames = 3, channels = [[1 / 2, 1 / 4, 3 / 4]]\<rparr>
       = 1 + 2"
proof -
  have shape: "\<forall>first rest res. concatenateAudioBuffers (first # rest) = Inr res \<longrightarrow>
          numberOfChannels res = numberOfChannels first
        \<and> sampleRate res = sampleRate first
        \<and> length_frames res = sum_list (map length_frames (first # rest))"
    using C10_concatenateAudioBuffers by blast
  from shape [rule_format, OF concat_mismatch_example] concat_mismatch_example
  show ?thesis by simp
qed

section \<open>Properties of the player\<close>

lemma player_inv_frame [simp]:
  "player_inv N (p\<lparr>isPlaying := a\<rparr>) = player_inv N p"
  "player_inv N (p\<lparr>isBuffering := a\<rparr>) = player_inv N p"
  "player_inv N (p\<lparr>autoScroll := a\<rparr>) = player_inv N p"
  "player_inv N (p\<lparr>segmentProgress := r\<rparr>) = player_inv N p"
  "player_inv N (p\<lparr>audioContextRef := a\<rparr>) = player_inv N p"
  "player_inv N (p\<lparr>startTimeRef := r\<rparr>) = player_inv N p"
  "player_inv N (p\<lparr>segmentOffsetRef := r\<rparr>) = player_inv N p"
  "player_inv N (p\<lparr>renderedSpeed := r\<rparr>) = player_inv N p"
  by (simp_all add: player_inv_def)

lemma inv_stopAudio: "player_inv N p \<Longrightarrow> player_inv N (stopAudio p)"
  by (auto simp: stopAudio_def player_inv_def split: option.splits)

lemma audio_of_at_index:
  "audio_of (at_index xs i) = Some a \<Longrightarrow> i < length xs"
  by (auto simp: audio_of_def at_index_def split: if_splits)

lemma playSegment_index [simp]:
  "currentSegmentIndex (playSegment props now seg off p) = currentSegmentIndex p"
  "indexRef (playSegment props now seg off p) = indexRef p"
  by (auto simp: playSegment_def stopAudio_def Let_def split: option.splits)

lemma playSegment_source:
  "audio_of seg = Some a \<Longrightarrow>
   sourceRef (playSegment props now seg off p)
     = Some \<lparr>buffer = a, playbackRate = playbackSpeed props, startedAt = off,
             closure = props, ended = False\<rparr>"
  by (auto simp: playSegment_def stopAudio_def Let_def split: option.splits)

lemma inv_playSegment:
  assumes "props_of_story N props" "indexRef p = currentSegmentIndex p"
    "audio_of (at_index (segments (story props)) (currentSegmentIndex p)) = Some a"
  shows "player_inv N (playSegment props now (at_index (segments (story props)) (currentSegmentIndex p)) off p)"
proof -
  from audio_of_at_index [OF assms(3)] assms(1)
  have "currentSegmentIndex p < N" by (simp add: props_of_story_def)
  then show ?thesis
    using assms by (simp add: player_inv_def playSegment_source)
qed

lemma inv_togglePlayback:
  assumes "props_of_story N props" "player_inv N p"
  shows "player_inv N (togglePlayback props now p)"
proof (cases "isPlaying p")
  case True
  then show ?thesis
    using assms(2) by (auto simp: togglePlayback_def Let_def intro: inv_stopAudio)
next
  case False
  show ?thesis
  proof (cases "audio_of (at_index (segments (story props)) (currentSegmentIndex p))")
    case None
    then show ?thesis
      using False assms(2) by (simp add: togglePlayback_def Let_def)
  next
    case (Some a)
    let ?p1 = "p\<lparr>isPlaying := True, isBuffering := False\<rparr>"
    have "player_inv N (playSegment props now (at_index (segments (story props)) (currentSegmentIndex ?p1)) (segmentOffsetRef p) ?p1)"
      using assms Some by (intro inv_playSegment) (auto simp: player_inv_def)
    then show ?thesis
      using False Some by (simp add: togglePlayback_def Let_def)
  qed
qed

lemma inv_handleSegmentEnd:
  assumes "props_of_story N props" "indexRef p = currentSegmentIndex p" "currentSegmentIndex p < N"
    "\<forall>source. sourceRef p = Some source \<longrightarrow> props_of_story N (closure source) \<and> ended source"
  shows "currentSegmentIndex (handleSegmentEnd props now p) \<le> N
     \<and> (\<forall>source. sourceRef (handleSegmentEnd props now p) = Some source \<longrightarrow>
           props_of_story N (closure source)
           \<and> (ended source \<or> currentSegmentIndex (handleSegmentEnd props now p) < N))"
proof (cases "audio_of (at_index (segments (story props)) (indexRef p + 1))")
  case None
  then show ?thesis
    using assms by (auto simp: handleSegmentEnd_def Let_def)
next
  case (Some a)
  from audio_of_at_index [OF Some] assms(1) have "indexRef p + 1 < N"
    by (simp add: props_of_story_def)
  then show ?thesis
    using assms Some by (simp add: handleSegmentEnd_def Let_def playSegment_source)
qed

lemma handleSegmentEnd_index:
  "currentSegmentIndex (handleSegmentEnd props now p) = indexRef p + 1"
  by (simp add: handleSegmentEnd_def Let_def split: option.splits)

lemma handleSegmentEnd_indexRef:
  "indexRef (handleSegmentEnd props now p) = indexRef p"
  by (simp add: handleSegmentEnd_def Let_def split: option.splits)

lemma speed_effect_fields [simp]:
  "currentSegmentIndex (speed_effect props p) = currentSegmentIndex p"
  "isPlaying (speed_effect props p) = isPlaying p"
  "isBuffering (speed_effect props p) = isBuffering p"
  "segmentOffsetRef (speed_effect props p) = segmentOffsetRef p"
  "startTimeRef (speed_effect props p) = startTimeRef p"
  by (auto simp: speed_effect_def split: option.splits)

lemma inv_run_effects:
  assumes "props_of_story N props" "currentSegmentIndex p \<le> N"
    "\<forall>source. sourceRef p = Some source \<longrightarrow>
           props_of_story N (closure source) \<and> (ended source \<or> currentSegmentIndex p < N)"
  shows "player_inv N (run_effects props now p)"
proof -
  let ?q = "(speed_effect props p)\<lparr>indexRef := currentSegmentIndex p\<rparr>"
  have q: "player_inv N ?q"
    using assms(2,3) by (auto simp: player_inv_def speed_effect_def split: option.splits)
  have qi: "currentSegmentIndex ?q = currentSegmentIndex p"
    by simp
  show ?thesis
  proof (cases "isBuffering ?q \<and> isPlaying ?q
      \<and> audio_of (at_index (segments (story props)) (currentSegmentIndex ?q)) \<noteq> None")
    case False
    then show ?thesis using q by (auto simp: run_effects_def buffering_effect_def Let_def)
  next
    case True
    then obtain a where a: "audio_of (at_index (segments (story props)) (currentSegmentIndex ?q)) = Some a"
      by blast
    let ?q1 = "?q\<lparr>isBuffering := False\<rparr>"
    have "player_inv N (playSegment props now (at_index (segments (story props)) (currentSegmentIndex ?q1)) 0 ?q1)"
      using assms(1) a by (intro inv_playSegment) auto
    then show ?thesis
      using True by (simp add: run_effects_def buffering_effect_def Let_def)
  qed
qed

lemma inv_player_step:
  assumes "props_of_story N props" "player_inv N p"
  shows "player_inv N (player_step props now ev p)"
proof (cases ev)
  case Toggle
  from inv_togglePlayback [OF assms] have t: "player_inv N (togglePlayback props now p)" .
  have "player_inv N (run_effects props now (togglePlayback props now p))"
    using t assms(1) by (intro inv_run_effects) (auto simp: player_inv_def)
  then show ?thesis using Toggle by (simp add: player_step_def)
next
  case Rerender
  have "player_inv N (run_effects props now p)"
    using assms by (intro inv_run_effects) (auto simp: player_inv_def)
  then show ?thesis using Rerender by (simp add: player_step_def)
next
  case SourceEnded
  show ?thesis
  proof (cases "sourceRef p")
    case None
    then show ?thesis using SourceEnded assms(2) by (simp add: player_step_def)
  next
    case (Some src)
    show ?thesis
    proof (cases "ended src")
      case True
      then show ?thesis using SourceEnded Some assms(2) by (simp add: player_step_def)
    next
      case False
      let ?p1 = "p\<lparr>sourceRef := Some (src\<lparr>ended := True\<rparr>)\<rparr>"
      from assms(2) Some False have lt: "currentSegmentIndex p < N" and cl: "props_of_story N (closure src)"
        and ir: "indexRef p = currentSegmentIndex p"
        by (auto simp: player_inv_def)
      have h: "currentSegmentIndex (handleSegmentEnd (closure src) now ?p1) \<le> N
         \<and> (\<forall>source. sourceRef (handleSegmentEnd (closure src) now ?p1) = Some source \<longrightarrow>
           props_of_story N (closure source)
           \<and> (ended source \<or> currentSegmentIndex (handleSegmentEnd (closure src) now ?p1) < N))"
        using cl lt ir by (intro inv_handleSegmentEnd) auto
      have o: "currentSegmentIndex (onended src now ?p1) \<le> N
         \<and> (\<forall>source. sourceRef (onended src now ?p1) = Some source \<longrightarrow>
           props_of_story N (closure source)
           \<and> (ended source \<or> currentSegmentIndex (onended src now ?p1) < N))"
        using h lt cl by (auto simp: onended_def Let_def)
      have "player_inv N (run_effects props now (onended src now ?p1))"
        using o assms(1) by (intro inv_run_effects) auto
      then show ?thesis using SourceEnded Some False by (simp add: player_step_def)
    qed
  qed
qed

lemma inv_player_run:
  assumes "list_all (\<lambda>(props, now, ev). props_of_story N props) evs" "player_inv N p"
  shows "player_inv N (player_run evs p)"
  using assms
proof (induction evs arbitrary: p)
  case Nil
  then show ?case by simp
next
  case (Cons e evs)
  obtain props now ev where e: "e = (props, now, ev)" by (cases e) auto
  from Cons.prems have "props_of_story N props" by (simp add: e)
  from inv_player_step [OF this Cons.prems(2)] Cons.prems(1) show ?case
    by (simp add: e Cons.IH)
qed

lemma inv_initial: "player_inv N (initial_player speed)"
  by (simp add: player_inv_def initial_player_def)


lemma demo_props_ok: "props_of_story 1 demo_props"
  by (simp add: props_of_story_def demo_props_def demo_story_def)

lemma demo_run:
  "player_run [(demo_props, 0, Toggle), (demo_props, 10, SourceEnded)] (initial_player 1)
   = \<lparr>isPlaying = False, currentSegmentIndex = 1, isBuffering = False, autoScroll = True,
      segmentProgress = 0, audioContextRef = True,
      sourceRef = Some \<lparr>buffer = demo_audio, playbackRate = 1, startedAt = 0,
                         closure = demo_props, ended = True\<rparr>,
      startTimeRef = 0, segmentOffsetRef = 0, indexRef = 1, renderedSpeed = 1\<rparr>"
  by (simp add: player_step_def run_effects_def speed_effect_def buffering_effect_def
      togglePlayback_def playSegment_def stopAudio_def onended_def handleSegmentEnd_def
      initial_player_def at_index_def audio_of_def duration_def Let_def
      demo_props_def demo_story_def demo_audio_def)










lemma handleSegmentEnd_last:
  assumes "props_of_story N props" "indexRef p + 1 = N"
  shows "currentSegmentIndex (handleSegmentEnd props now p) = N
     \<and> (\<not> isBackgroundGenerating props \<longrightarrow> \<not> isPlaying (handleSegmentEnd props now p))
     \<and> (isBackgroundGenerating props \<longrightarrow> isBuffering (handleSegmentEnd props now p))"
proof -
  from assms have "at_index (segments (story props)) (indexRef p + 1) = None"
    by (simp add: props_of_story_def at_index_def)
  then have "audio_of (at_index (segments (story props)) (indexRef p + 1)) = None"
    by (simp add: audio_of_def)
  then show ?thesis
    using assms by (simp add: handleSegmentEnd_def Let_def props_of_story_def)
qed

text \<open>
  C1 (as the code has it). In every state a player of a story with \<open>N\<close> segments can
  reach, while the store holds at most \<open>N\<close> segments, the index lies in the closed range
  from 0 to \<open>N\<close>, and it is below \<open>N\<close> whenever a source is still playing. The
  end-of-segment handler always moves the index up by exactly one: run on the final
  segment it leaves the index at \<open>N\<close>, and then stops playback when no generation is
  in progress and buffers otherwise.
\<close>

theorem C1_index_bound:
  "list_all (\<lambda>(props, now, ev). props_of_story N props) evs \<Longrightarrow>
     currentSegmentIndex (player_run evs (initial_player speed)) \<le> N
   \<and> (\<forall>source. sourceRef (player_run evs (initial_player speed)) = Some source
          \<and> \<not> ended source
        \<longrightarrow> currentSegmentIndex (player_run evs (initial_player speed)) < N)
   \<and> (\<forall>props now p. currentSegmentIndex (handleSegmentEnd props now p) = indexRef p + 1)
   \<and> (\<forall>props now p. props_of_story N props \<and> indexRef p + 1 = N \<longrightarrow>
          currentSegmentIndex (handleSegmentEnd props now p) = N
        \<and> (\<not> isBackgroundGenerating props \<longrightarrow> \<not> isPlaying (handleSegmentEnd props now p))
        \<and> (isBackgroundGenerating props \<longrightarrow> isBuffering (handleSegmentEnd props now p)))"
proof -
  assume evs: "list_all (\<lambda>(props, now, ev). props_of_story N props) evs"
  from inv_player_run [OF evs inv_initial]
  have "player_inv N (player_run evs (initial_player speed))" .
  then have a: "currentSegmentIndex (player_run evs (initial_player speed)) \<le> N"
    and b: "\<forall>source. sourceRef (player_run evs (initial_player speed)) = Some source
          \<and> \<not> ended source
        \<longrightarrow> currentSegmentIndex (player_run evs (initial_player speed)) < N"
    by (auto simp: player_inv_def)
  from a b handleSegmentEnd_index handleSegmentEnd_last show ?thesis
    by blast
qed

theorem C1_index_bound_witness:
  "list_all (\<lambda>(props, now, ev). props_of_story 1 props)
     [(demo_props, 0, Toggle), (demo_props, 10, SourceEnded)]
   \<and> currentSegmentIndex
       (player_run [(demo_props, 0, Toggle), (demo_props, 10, SourceEnded)] (initial_player 1)) \<le> 1"
proof -
  have ok: "list_all (\<lambda>(props, now, ev). props_of_story 1 props)
     [(demo_props, 0, Toggle), (demo_props, 10, SourceEnded)]"
    using demo_props_ok by simp
  from C1_index_bound [OF ok, of 1] ok show ?thesis by blast
qed

text \<open>
  As stated, with the index always below the segment count, the claim fails: a story of
  one segment is played, its source runs to its end at second 10, and the index is 1.
\<close>

theorem C1_counterexample:
  "props_of_story 1 demo_props
   \<and> totalSegmentsEstimate (story demo_props) = 1
   \<and> currentSegmentIndex
       (player_run [(demo_props, 0, Toggle), (demo_props, 10, SourceEnded)] (initial_player 1)) = 1
   \<and> \<not> currentSegmentIndex
       (player_run [(demo_props, 0, Toggle), (demo_props, 10, SourceEnded)] (initial_player 1))
       < totalSegmentsEstimate (story demo_props)"
proof -
  have n: "totalSegmentsEstimate (story demo_props) = 1"
    by (simp add: demo_props_def demo_story_def)
  have i: "currentSegmentIndex
       (player_run [(demo_props, 0, Toggle), (demo_props, 10, SourceEnded)] (initial_player 1)) = 1"
    by (subst demo_run) simp
  show ?thesis
    unfolding i n using demo_props_ok by simp
qed

section \<open>Properties of the generation scheduler\<close>

lemma setStory_fields [simp]:
  "generating (setStory f app) = generating app"
  "isGeneratingRef (setStory f app) = isGeneratingRef app"
  "voicing (setStory f app) = voicing app"
  "starting (setStory f app) = starting app"
  "route (setStory f app) = route app"
  "routeRef (setStory f app) = routeRef app"
  "appState (setStory f app) = appState app"
  "currentPlayingIndex (setStory f app) = currentPlayingIndex app"
  "selectedVoice (setStory f app) = selectedVoice app"
  "backgroundGenerating (setStory f app) = backgroundGenerating app"
  by (simp_all add: setStory_def split: update.splits)



















lemma demo_segments: "nat (calculateTotalSegments (durationSeconds demo_route)) = 5"
  by (simp add: demo_route_def calculateTotalSegments_eq)

lemma demo_started:
  "app_run demo_start initial_app =
     \<lparr>appState = READY_TO_PLAY, route = Some demo_route, currentStory = Some demo_story5,
      selectedVoice = voice_Zephyr, isGeneratingRef = True, backgroundGenerating = True,
      currentPlayingIndex = 0, storyRef = 1, routeRef = 1,
      generating = [\<lparr>taskIndex = 2, taskStory = demo_story5, taskRoute = demo_route,
                      taskVoice = voice_Zephyr\<rparr>],
      voicing = [], starting = [], sparse = False\<rparr>"
  by (simp add: demo_start_def app_step_def handle_def effect_deps_def Let_def
      handleStartStory_def start_settled_def withTimeout_def WITH_TIMEOUT_MS_def
      generation_effect_def generateNextSegment_def initial_app_def demo_segments
      demo_story5_def)



section \<open>One story at a time\<close>






















lemma app_run_append: "app_run (xs @ ys) app = app_run ys (app_run xs app)"
  by (induction xs arbitrary: app) auto

















section \<open>Trigger, commit and voice change\<close>

lemma demo_segments2: "nat (calculateTotalSegments (durationSeconds demo_route2)) = 2"
  by (simp add: demo_route2_def calculateTotalSegments_eq)













lemma demo_released_run:
  "app_run (demo_start @ [GenerationSettled 0 Pending Pending]) initial_app = demo_released"
  unfolding app_run_append demo_started
  by (simp add: app_step_def handle_def effect_deps_def Let_def generation_settled_def
      at_index_def remove_nth_def withTimeout_def demo_released_def)










lemma distinct_map_sort_key:
  "distinct (map f (sort_key f xs)) = distinct (map f xs)"
  by (induction xs) (simp_all add: distinct_insort_key)

lemma commit_discard:
  "currentStory app = None \<Longrightarrow> setStory (commit_segment i sd a) app = app"
  "currentStory app = Some p \<Longrightarrow> list_ex (\<lambda>s. index s = i) (segments p) \<Longrightarrow>
     setStory (commit_segment i sd a) app = app"
  by (simp_all add: setStory_def commit_segment_def)

lemma commit_insert:
  assumes "currentStory app = Some p" "\<not> list_ex (\<lambda>s. index s = i) (segments p)"
  shows "setStory (commit_segment i sd a) app =
    app\<lparr>currentStory := Some (p\<lparr>segments :=
            sort_key index (segments p @ [sd\<lparr>audioBuffer := Some a\<rparr>])\<rparr>),
        storyRef := storyRef app + 1\<rparr>"
  using assms by (simp add: setStory_def commit_segment_def)

lemma commit_twice:
  assumes "index sd = i"
  shows "setStory (commit_segment i sd2 a2) (setStory (commit_segment i sd a) app)
    = setStory (commit_segment i sd a) app"
proof (cases "currentStory app")
  case None
  then show ?thesis by (simp add: commit_discard(1))
next
  case (Some p)
  show ?thesis
  proof (cases "list_ex (\<lambda>s. index s = i) (segments p)")
    case True
    with Some show ?thesis by (simp add: commit_discard(2))
  next
    case False
    let ?p' = "p\<lparr>segments := sort_key index (segments p @ [sd\<lparr>audioBuffer := Some a\<rparr>])\<rparr>"
    let ?app' = "app\<lparr>currentStory := Some ?p', storyRef := storyRef app + 1\<rparr>"
    have e: "setStory (commit_segment i sd a) app = ?app'"
      by (rule commit_insert [OF Some False])
    have "list_ex (\<lambda>s. index s = i) (segments ?p')"
      using assms by (auto simp: list_ex_iff)
    then have "setStory (commit_segment i sd2 a2) ?app' = ?app'"
      by (intro commit_discard(2) [where p = ?p']) simp_all
    then show ?thesis by (simp only: e)
  qed
qed


lemma cross_story_state:
  "app_run cross_story_events initial_app =
     \<lparr>appState = READY_TO_PLAY, route = Some demo_route2, currentStory = Some demo_story2,
      selectedVoice = voice_Zephyr, isGeneratingRef = True, backgroundGenerating = True,
      currentPlayingIndex = 0, storyRef = 3, routeRef = 3,
      generating = [\<lparr>taskIndex = 2, taskStory = demo_story5, taskRoute = demo_route,
                      taskVoice = voice_Zephyr\<rparr>],
      voicing = [], starting = [], sparse = False\<rparr>"
  unfolding cross_story_events_def app_run_append demo_started
  by (simp add: app_step_def handle_def effect_deps_def Let_def handleReset_def
      handleStartStory_def start_settled_def withTimeout_def WITH_TIMEOUT_MS_def
      generation_effect_def generateNextSegment_def demo_segments2 demo_story2_def)

lemma cross_story_commit:
  "currentStory (app_step (GenerationSettled 0 (Fulfilled 5000 [65, 50]) (Fulfilled 7000 demo_audio))
      (app_run cross_story_events initial_app))
   = Some (demo_story2\<lparr>segments := segments demo_story2
        @ [\<lparr>index = 2, segmentText = [65, 50], audioBuffer = Some demo_audio\<rparr>]\<rparr>)"
  unfolding cross_story_state
  by (simp add: app_step_def handle_def effect_deps_def Let_def generation_settled_def
      at_index_def remove_nth_def withTimeout_def WITH_TIMEOUT_MS_def setStory_def
      commit_segment_def generation_effect_def generateNextSegment_def demo_story2_def)

text \<open>
  C4 (as the code has it). A completion for an index is discarded, and the whole state
  left as it is, when there is no current story or the current story already has an
  entry of that index. Otherwise the segment is added in index order: the entries that
  were there stay as they are, and indices that were distinct stay distinct. A second
  completion for the same index changes nothing, whatever its text and audio.
\<close>

theorem C4_commit_idempotent:
  "index sd = i \<Longrightarrow>
     (currentStory app = None \<longrightarrow> setStory (commit_segment i sd a) app = app)
   \<and> (\<forall>p. currentStory app = Some p \<and> list_ex (\<lambda>s. index s = i) (segments p) \<longrightarrow>
          setStory (commit_segment i sd a) app = app)
   \<and> (\<forall>p. currentStory app = Some p \<and> \<not> list_ex (\<lambda>s. index s = i) (segments p) \<longrightarrow>
          (\<exists>p'. currentStory (setStory (commit_segment i sd a) app) = Some p'
             \<and> set (segments p') = set (segments p) \<union> {sd\<lparr>audioBuffer := Some a\<rparr>}
             \<and> length (segments p') = length (segments p) + 1
             \<and> sorted (map index (segments p'))
             \<and> (distinct (map index (segments p)) \<longrightarrow> distinct (map index (segments p')))
             \<and> totalSegmentsEstimate p' = totalSegmentsEstimate p \<and> outline p' = outline p))
   \<and> (\<forall>sd2 a2. setStory (commit_segment i sd2 a2) (setStory (commit_segment i sd a) app)
          = setStory (commit_segment i sd a) app)"
proof -
  assume i: "index sd = i"
  have ins: "\<forall>p. currentStory app = Some p \<and> \<not> list_ex (\<lambda>s. index s = i) (segments p) \<longrightarrow>
          (\<exists>p'. currentStory (setStory (commit_segment i sd a) app) = Some p'
             \<and> set (segments p') = set (segments p) \<union> {sd\<lparr>audioBuffer := Some a\<rparr>}
             \<and> length (segments p') = length (segments p) + 1
             \<and> sorted (map index (segments p'))
             \<and> (distinct (map index (segments p)) \<longrightarrow> distinct (map index (segments p')))
             \<and> totalSegmentsEstimate p' = totalSegmentsEstimate p \<and> outline p' = outline p)"
  proof (intro allI impI)
    fix p assume h: "currentStory app = Some p \<and> \<not> list_ex (\<lambda>s. index s = i) (segments p)"
    define p' where "p' = p\<lparr>segments :=
            sort_key index (segments p @ [sd\<lparr>audioBuffer := Some a\<rparr>])\<rparr>"
    from h have cs: "currentStory (setStory (commit_segment i sd a) app) = Some p'"
      by (simp add: commit_insert p'_def)
    have st: "set (segments p') = set (segments p) \<union> {sd\<lparr>audioBuffer := Some a\<rparr>}"
      "length (segments p') = length (segments p) + 1"
      "sorted (map index (segments p'))"
      "totalSegmentsEstimate p' = totalSegmentsEstimate p" "outline p' = outline p"
      by (simp_all add: p'_def)
    have new: "i \<notin> index ` set (segments p)"
      using h by (auto simp: list_ex_iff)
    have ds: "distinct (map index (segments p)) \<longrightarrow> distinct (map index (segments p'))"
      using new i by (simp add: p'_def distinct_map_sort_key)
    from cs st ds
    show "\<exists>p'. currentStory (setStory (commit_segment i sd a) app) = Some p'
             \<and> set (segments p') = set (segments p) \<union> {sd\<lparr>audioBuffer := Some a\<rparr>}
             \<and> length (segments p') = length (segments p) + 1
             \<and> sorted (map index (segments p'))
             \<and> (distinct (map index (segments p)) \<longrightarrow> distinct (map index (segments p')))
             \<and> totalSegmentsEstimate p' = totalSegmentsEstimate p \<and> outline p' = outline p"
      by blast
  qed
  have d1: "currentStory app = None \<longrightarrow> setStory (commit_segment i sd a) app = app"
    by (simp add: commit_discard(1))
  have d2: "\<forall>p. currentStory app = Some p \<and> list_ex (\<lambda>s. index s = i) (segments p) \<longrightarrow>
          setStory (commit_segment i sd a) app = app"
    using commit_discard(2) by blast
  have tw: "\<forall>sd2 a2. setStory (commit_segment i sd2 a2) (setStory (commit_segment i sd a) app)
          = setStory (commit_segment i sd a) app"
    using commit_twice [OF i] by blast
  from d1 d2 ins tw show ?thesis by blast
qed

theorem C4_commit_idempotent_witness:
  "index \<lparr>index = 1, segmentText = [88], audioBuffer = None\<rparr> = 1
   \<and> currentStory demo_released = Some demo_story5
   \<and> list_ex (\<lambda>s. index s = 1) (segments demo_story5)
   \<and> setStory (commit_segment 1 \<lparr>index = 1, segmentText = [88], audioBuffer = None\<rparr> demo_audio2)
        demo_released = demo_released"
proof -
  have a: "index \<lparr>index = 1, segmentText = [88], audioBuffer = None\<rparr> = 1" by simp
  have b: "currentStory demo_released = Some demo_story5"
    "list_ex (\<lambda>s. index s = 1) (segments demo_story5)"
    by (simp_all add: demo_released_def demo_story5_def)
  from C4_commit_idempotent [OF a, of demo_released demo_audio2] a b show ?thesis
    by blast
qed

text \<open>
  As stated, with every completion for a story that is no longer current discarded, the
  claim fails: a call made for a story of five segments is still waiting when that story
  is ended and a story of two segments is started; when the call completes, its segment
  becomes segment 2 of the new story.
\<close>

theorem C4_counterexample:
  "map taskStory (generating (app_run cross_story_events initial_app)) = [demo_story5]
   \<and> currentStory (app_run cross_story_events initial_app) = Some demo_story2
   \<and> totalSegmentsEstimate demo_story5 = 5 \<and> totalSegmentsEstimate demo_story2 = 2
   \<and> currentStory (app_step (GenerationSettled 0 (Fulfilled 5000 [65, 50]) (Fulfilled 7000 demo_audio))
        (app_run cross_story_events initial_app))
      = Some (demo_story2\<lparr>segments := segments demo_story2
          @ [\<lparr>index = 2, segmentText = [65, 50], audioBuffer = Some demo_audio\<rparr>]\<rparr>)
   \<and> currentStory (app_step (GenerationSettled 0 (Fulfilled 5000 [65, 50]) (Fulfilled 7000 demo_audio))
        (app_run cross_story_events initial_app))
      \<noteq> currentStory (app_run cross_story_events initial_app)"
proof -
  have a: "map taskStory (generating (app_run cross_story_events initial_app)) = [demo_story5]"
    "currentStory (app_run cross_story_events initial_app) = Some demo_story2"
    by (simp_all add: cross_story_state)
  have b: "totalSegmentsEstimate demo_story5 = 5" "totalSegmentsEstimate demo_story2 = 2"
    by (simp_all add: demo_story5_def demo_story2_def)
  have c: "Some (demo_story2\<lparr>segments := segments demo_story2
          @ [\<lparr>index = 2, segmentText = [65, 50], audioBuffer = Some demo_audio\<rparr>]\<rparr>)
      \<noteq> Some demo_story2"
    by (simp add: demo_story2_def)
  show ?thesis
    unfolding cross_story_commit a(2) using a(1) b c
    by (simp only: simp_thms)
qed

end
